theory Spec2Isabelle
  imports
    Main
    "HOL-Library.Sublist"
    "HOL-Library.AList"
    "HOL-Library.Char_ord"
    "HOL-Library.List_Lexorder"
    "HOL-Library.Product_Lexorder"
    "HOL-Library.Multiset"
begin

section \<open>cjdk: the JDK index (\<^verbatim>\<open>_index.py\<close>) and the Java home (\<^verbatim>\<open>_jdk.py\<close>)\<close>

text \<open>
  A string is a list of characters, each a code point below 256 (ASCII and Latin-1);
  strings with code points beyond that are outside the model. Exceptions are values of
  the type \<open>error\<close>; an exception that carries a message keeps it.
\<close>

subsection \<open>Exceptions\<close>

datatype error =
    ValueError string
  | LookupError string
  | KeyError string
  | AssertionError
  | TypeError
  | HTTPError

text \<open>\<^verbatim>\<open>isinstance(e, LookupError)\<close>: in Python \<^verbatim>\<open>KeyError\<close> is a subclass of
  \<^verbatim>\<open>LookupError\<close>.\<close>

fun is_LookupError :: "error \<Rightarrow> bool" where
  "is_LookupError (LookupError m) = True"
| "is_LookupError (KeyError m) = True"
| "is_LookupError (ValueError m) = False"
| "is_LookupError AssertionError = False"
| "is_LookupError TypeError = False"
| "is_LookupError HTTPError = False"

subsection \<open>Version keys\<close>

text \<open>
  \<^verbatim>\<open>_normalize_version\<close> returns a tuple whose elements are Python ints, followed by the
  string \<^verbatim>\<open>"+"\<close> when the version ended in a plus sign.
\<close>

datatype elem = Num int | Plus

text \<open>
  Python compares two tuples at the first index where the elements are not equal, and by
  length when one is a prefix of the other. An int never equals a string, and ordering an
  int against a string raises \<^verbatim>\<open>TypeError\<close>.
\<close>

fun elem_lt :: "elem \<Rightarrow> elem \<Rightarrow> error + bool" where
  "elem_lt (Num a) (Num b) = Inr (a < b)"
| "elem_lt Plus Plus = Inr False"
| "elem_lt (Num a) Plus = Inl TypeError"
| "elem_lt Plus (Num b) = Inl TypeError"

fun elem_gt :: "elem \<Rightarrow> elem \<Rightarrow> error + bool" where
  "elem_gt (Num a) (Num b) = Inr (a > b)"
| "elem_gt Plus Plus = Inr False"
| "elem_gt (Num a) Plus = Inl TypeError"
| "elem_gt Plus (Num b) = Inl TypeError"

fun elem_ge :: "elem \<Rightarrow> elem \<Rightarrow> error + bool" where
  "elem_ge (Num a) (Num b) = Inr (a \<ge> b)"
| "elem_ge Plus Plus = Inr True"
| "elem_ge (Num a) Plus = Inl TypeError"
| "elem_ge Plus (Num b) = Inl TypeError"

fun tuple_lt :: "elem list \<Rightarrow> elem list \<Rightarrow> error + bool" where
  "tuple_lt [] [] = Inr False"
| "tuple_lt [] (y # ys) = Inr True"
| "tuple_lt (x # xs) [] = Inr False"
| "tuple_lt (x # xs) (y # ys) = (if x = y then tuple_lt xs ys else elem_lt x y)"

fun tuple_gt :: "elem list \<Rightarrow> elem list \<Rightarrow> error + bool" where
  "tuple_gt [] ys = Inr False"
| "tuple_gt (x # xs) [] = Inr True"
| "tuple_gt (x # xs) (y # ys) = (if x = y then tuple_gt xs ys else elem_gt x y)"

subsection \<open>\<^verbatim>\<open>_normalize_version\<close>\<close>

text \<open>\<^verbatim>\<open>_VER_SEPS = re.compile(r"[.-]")\<close>\<close>

definition is_sep :: "char \<Rightarrow> bool" where
  "is_sep c = (c = CHR ''.'' \<or> c = CHR ''-'')"

text \<open>\<^verbatim>\<open>re.split(_VER_SEPS, ver)\<close>: the pieces between separators, empty pieces kept.\<close>

fun re_split :: "string \<Rightarrow> string list" where
  "re_split [] = [[]]"
| "re_split (c # cs) =
     (if is_sep c then [] # re_split cs
      else (case re_split cs of [] \<Rightarrow> [[c]] | w # ws \<Rightarrow> (c # w) # ws))"

text \<open>
  \<^verbatim>\<open>int(e)\<close> on a string: surrounding whitespace is dropped, one sign is allowed, then
  decimal digits follow, with single underscores allowed between digits. Anything else
  raises \<^verbatim>\<open>ValueError\<close>, here \<open>None\<close>. The whitespace that \<^verbatim>\<open>int\<close> drops is space,
  tab, newline, vertical tab, form feed, carriage return and, of the code points from 128
  to 255, U+0085 and U+00A0; the only decimal digits below 256 are \<^verbatim>\<open>0\<close> to \<^verbatim>\<open>9\<close>.
  (The limit on the number of digits that newer interpreters put on \<^verbatim>\<open>int\<close> is a
  setting of the interpreter and is left out.)
\<close>

definition is_space :: "char \<Rightarrow> bool" where
  "is_space c =
     (c = CHR '' '' \<or> (9 \<le> (of_char c :: nat) \<and> (of_char c :: nat) \<le> 13)
      \<or> (of_char c :: nat) = 133 \<or> (of_char c :: nat) = 160)"

definition is_digit :: "char \<Rightarrow> bool" where
  "is_digit c = (48 \<le> (of_char c :: nat) \<and> (of_char c :: nat) \<le> 57)"

definition digit_val :: "char \<Rightarrow> int" where
  "digit_val c = int (of_char c) - 48"

definition strip :: "string \<Rightarrow> string" where
  "strip s = rev (dropWhile is_space (rev (dropWhile is_space s)))"

fun parse_digits :: "int \<Rightarrow> string \<Rightarrow> int option" where
  "parse_digits acc [] = Some acc"
| "parse_digits acc (c # cs) =
     (if is_digit c then parse_digits (acc * 10 + digit_val c) cs
      else if c = CHR ''_'' then
        (case cs of
           [] \<Rightarrow> None
         | d # ds \<Rightarrow> if is_digit d then parse_digits (acc * 10 + digit_val d) ds else None)
      else None)"

definition parse_unsigned :: "string \<Rightarrow> int option" where
  "parse_unsigned s =
     (case s of
        [] \<Rightarrow> None
      | d # ds \<Rightarrow> if is_digit d then parse_digits (digit_val d) ds else None)"

definition py_int :: "string \<Rightarrow> int option" where
  "py_int s =
     (case strip s of
        [] \<Rightarrow> None
      | c # r \<Rightarrow>
          if c = CHR ''+'' then parse_unsigned r
          else if c = CHR ''-'' then map_option uminus (parse_unsigned r)
          else parse_unsigned (c # r))"

text \<open>\<^verbatim>\<open>ver.endswith("+")\<close>\<close>

definition endswith_plus :: "string \<Rightarrow> bool" where
  "endswith_plus ver = (ver \<noteq> [] \<and> last ver = CHR ''+'')"

text \<open>
  \<^verbatim>\<open>_normalize_version(ver, *, remove_prefix_1=False)\<close>. The message of the
  \<^verbatim>\<open>ValueError\<close> names the version without its plus sign.
\<close>

definition normalize_version :: "string \<Rightarrow> bool \<Rightarrow> error + elem list" where
  "normalize_version ver remove_prefix_1 =
     (let is_plus = endswith_plus ver;
          ver1 = (if is_plus then butlast ver else ver);
          plus = (if is_plus then [Plus] else [])
      in if ver1 \<noteq> [] then
           (case those (map py_int (re_split ver1)) of
              None \<Rightarrow> Inl (ValueError (''Invalid version string: '' @ ver1))
            | Some ns \<Rightarrow>
                (let norm = map Num ns
                 in if remove_prefix_1 \<and> norm \<noteq> [] \<and> hd norm = Num 1
                    then Inr (tl norm @ plus)
                    else Inr (norm @ plus)))
         else Inr plus)"

subsection \<open>\<^verbatim>\<open>_is_version_compatible_with_spec\<close>\<close>

text \<open>
  The assertion at the head is a branch that raises \<^verbatim>\<open>AssertionError\<close>. The slices
  \<^verbatim>\<open>spec[:-1]\<close> and \<^verbatim>\<open>version[: n]\<close> are \<open>butlast\<close> and \<open>take\<close>; the index
  \<^verbatim>\<open>version[len(spec) - 1]\<close> is read only after the length test, as Python's \<^verbatim>\<open>and\<close>
  does.
\<close>

definition is_version_compatible_with_spec :: "elem list \<Rightarrow> elem list \<Rightarrow> error + bool" where
  "is_version_compatible_with_spec version spec =
     (if Plus \<in> set version then Inl AssertionError
      else if spec \<noteq> [] \<and> last spec = Plus then
        (let spec1 = butlast spec
         in if spec1 = [] then Inr True
            else if length version \<ge> length spec1
                    \<and> take (length spec1 - 1) version = butlast spec1
                 then elem_ge (version ! (length spec1 - 1)) (last spec1)
                 else Inr False)
      else Inr (length version \<ge> length spec \<and> take (length spec) version = spec))"

subsection \<open>\<^verbatim>\<open>_match_version\<close>\<close>

text \<open>
  \<^verbatim>\<open>vendor.lower()\<close> and the substring test \<^verbatim>\<open>"graalvm" in ...\<close>. Below code point
  256 the letters with a lower-case form are \<^verbatim>\<open>A\<close> to \<^verbatim>\<open>Z\<close> and U+00C0 to U+00DE
  without U+00D7, each 32 below its lower-case form.
\<close>

definition lower_char :: "char \<Rightarrow> char" where
  "lower_char c =
     (if (65 \<le> (of_char c :: nat) \<and> (of_char c :: nat) \<le> 90)
         \<or> (192 \<le> (of_char c :: nat) \<and> (of_char c :: nat) \<le> 222
             \<and> (of_char c :: nat) \<noteq> 215)
      then char_of ((of_char c :: nat) + 32) else c)"

definition lower :: "string \<Rightarrow> string" where
  "lower s = map lower_char s"

fun contains :: "string \<Rightarrow> string \<Rightarrow> bool" where
  "contains needle [] = (needle = [])"
| "contains needle (c # cs) = (prefix needle (c # cs) \<or> contains needle cs)"

definition is_graal :: "string \<Rightarrow> bool" where
  "is_graal vendor = contains ''graalvm'' (lower vendor)"

text \<open>
  The first loop fills the dict \<^verbatim>\<open>normcands\<close>: key to candidate, in insertion order. A
  candidate whose normalization raises \<^verbatim>\<open>ValueError\<close> is skipped (the warning it
  causes is not part of the result). Storing under a key that is already there replaces
  the value and keeps the key's place, which is what \<open>AList.update\<close> does.
\<close>

fun fill_normcands ::
  "bool \<Rightarrow> string list \<Rightarrow> (elem list \<times> string) list \<Rightarrow> (elem list \<times> string) list" where
  "fill_normcands rp [] normcands = normcands"
| "fill_normcands rp (candidate # rest) normcands =
     (case normalize_version candidate rp of
        Inl e \<Rightarrow> fill_normcands rp rest normcands
      | Inr normcand \<Rightarrow> fill_normcands rp rest (AList.update normcand candidate normcands))"

text \<open>
  \<^verbatim>\<open>sorted(normcands.keys(), reverse=True)\<close>. The keys of a dict are distinct. When every
  two keys can be ordered, Python's order on them is total and the result is the one
  descending arrangement of the keys, computed here by insertion. When two keys cannot be
  ordered (an int meets \<^verbatim>\<open>"+"\<close> at their first difference), Python raises
  \<^verbatim>\<open>TypeError\<close> as soon as the sort compares the two; which pairs it compares is
  internal to \<^verbatim>\<open>list.sort\<close>, and the model raises for any such pair. With one or two
  keys the model is exact.
\<close>

definition comparable :: "elem list \<Rightarrow> elem list \<Rightarrow> bool" where
  "comparable a b = (case tuple_lt a b of Inl e \<Rightarrow> False | Inr r \<Rightarrow> True)"

fun insert_desc :: "elem list \<Rightarrow> elem list list \<Rightarrow> elem list list" where
  "insert_desc k [] = [k]"
| "insert_desc k (x # xs) =
     (if tuple_lt k x = Inr True then x # insert_desc k xs else k # x # xs)"

fun sort_desc :: "elem list list \<Rightarrow> elem list list" where
  "sort_desc [] = []"
| "sort_desc (k # ks) = insert_desc k (sort_desc ks)"

definition sorted_reverse :: "elem list list \<Rightarrow> error + elem list list" where
  "sorted_reverse ks =
     (if list_all (\<lambda>a. list_all (comparable a) ks) ks then Inr (sort_desc ks)
      else Inl TypeError)"

text \<open>
  The second loop: return at the first compatible key, go on while the key is greater
  than the request, stop at the first key that is neither. Leaving the loop reaches the
  \<^verbatim>\<open>raise LookupError\<close>, whose message is the last argument. \<^verbatim>\<open>normcands[normcand]\<close>
  raises \<^verbatim>\<open>KeyError\<close> on a missing key.
\<close>

fun scan ::
  "(elem list \<times> string) list \<Rightarrow> elem list \<Rightarrow> string \<Rightarrow> elem list list \<Rightarrow> error + string" where
  "scan normcands normreq msg [] = Inl (LookupError msg)"
| "scan normcands normreq msg (normcand # rest) =
     (case is_version_compatible_with_spec normcand normreq of
        Inl e \<Rightarrow> Inl e
      | Inr True \<Rightarrow>
          (case map_of normcands normcand of
             None \<Rightarrow> Inl (KeyError [])
           | Some candidate \<Rightarrow> Inr candidate)
      | Inr False \<Rightarrow>
          (case tuple_gt normcand normreq of
             Inl e \<Rightarrow> Inl e
           | Inr True \<Rightarrow> scan normcands normreq msg rest
           | Inr False \<Rightarrow> Inl (LookupError msg)))"

definition no_match_msg :: "string \<Rightarrow> string \<Rightarrow> string" where
  "no_match_msg vendor requested =
     ''No matching version for '' @ [CHR 0x27] @ vendor @ '':'' @ requested @ [CHR 0x27]"

definition match_version :: "string \<Rightarrow> string list \<Rightarrow> string \<Rightarrow> error + string" where
  "match_version vendor candidates requested =
     (let rp = \<not> is_graal vendor
      in case normalize_version requested rp of
           Inl e \<Rightarrow> Inl e
         | Inr normreq \<Rightarrow>
             (let normcands = fill_normcands rp candidates []
              in case sorted_reverse (map fst normcands) of
                   Inl e \<Rightarrow> Inl e
                 | Inr keys \<Rightarrow> scan normcands normreq (no_match_msg vendor requested) keys))"

text \<open>
  A full scan, for comparison: the same loop without the early stop, so every key is
  tested until one is compatible.
\<close>

fun scan_all ::
  "(elem list \<times> string) list \<Rightarrow> elem list \<Rightarrow> string \<Rightarrow> elem list list \<Rightarrow> error + string" where
  "scan_all normcands normreq msg [] = Inl (LookupError msg)"
| "scan_all normcands normreq msg (normcand # rest) =
     (case is_version_compatible_with_spec normcand normreq of
        Inl e \<Rightarrow> Inl e
      | Inr True \<Rightarrow>
          (case map_of normcands normcand of
             None \<Rightarrow> Inl (KeyError [])
           | Some candidate \<Rightarrow> Inr candidate)
      | Inr False \<Rightarrow> scan_all normcands normreq msg rest)"

definition match_version_full_scan :: "string \<Rightarrow> string list \<Rightarrow> string \<Rightarrow> error + string" where
  "match_version_full_scan vendor candidates requested =
     (let rp = \<not> is_graal vendor
      in case normalize_version requested rp of
           Inl e \<Rightarrow> Inl e
         | Inr normreq \<Rightarrow>
             (let normcands = fill_normcands rp candidates []
              in case sorted_reverse (map fst normcands) of
                   Inl e \<Rightarrow> Inl e
                 | Inr keys \<Rightarrow> scan_all normcands normreq (no_match_msg vendor requested) keys))"

text \<open>The candidates that normalize and whose key passes the compatibility test.\<close>

definition compatible_candidates :: "bool \<Rightarrow> elem list \<Rightarrow> string list \<Rightarrow> string list" where
  "compatible_candidates rp normreq candidates =
     filter (\<lambda>c. case normalize_version c rp of
                   Inl e \<Rightarrow> False
                 | Inr k \<Rightarrow> is_version_compatible_with_spec k normreq = Inr True) candidates"

text \<open>The integers of a key, and lists of keys in descending order of their integers.\<close>

definition ints :: "elem list \<Rightarrow> int list" where
  "ints k = concat (map (\<lambda>e. case e of Num n \<Rightarrow> [n] | Plus \<Rightarrow> []) k)"

definition descending :: "elem list list \<Rightarrow> bool" where
  "descending ks = sorted_wrt (\<lambda>a b. ints b \<le> ints a) ks"




subsection \<open>\<^verbatim>\<open>available_jdks\<close> and \<^verbatim>\<open>resolve_jdk_version\<close>\<close>

text \<open>
  The fields of \<^verbatim>\<open>Configuration\<close> that the functions modelled here read:
  \<^verbatim>\<open>conf.os\<close>, \<^verbatim>\<open>conf.arch\<close>, \<^verbatim>\<open>conf.vendor\<close>, \<^verbatim>\<open>conf.version\<close>,
  \<^verbatim>\<open>conf.index_url\<close> and \<^verbatim>\<open>conf._allow_insecure_for_testing\<close>. The index is the nested dict
  \<^verbatim>\<open>os -> arch -> "jdk@vendor" -> version -> url\<close>; a dict is the list of its items,
  looked up with \<open>map_of\<close>, so a missing key is the \<^verbatim>\<open>KeyError\<close> that
  \<^verbatim>\<open>available_jdks\<close> catches. \<^verbatim>\<open>sorted\<close> on pairs of strings is \<open>sort\<close> in the
  lexicographic order of pairs of lists of characters.
\<close>

record configuration =
  conf_os :: string
  conf_arch :: string
  conf_vendor :: string
  conf_version :: string
  conf_index_url :: string
  conf_allow_insecure_for_testing :: bool

type_synonym versions_dict = "(string \<times> string) list"
type_synonym jdks_dict = "(string \<times> versions_dict) list"
type_synonym index = "(string \<times> (string \<times> jdks_dict) list) list"

text \<open>\<^verbatim>\<open>str.removeprefix\<close>\<close>

definition removeprefix :: "string \<Rightarrow> string \<Rightarrow> string" where
  "removeprefix pre s = (if prefix pre s then drop (length pre) s else s)"

text \<open>The generator inside \<^verbatim>\<open>sorted(...)\<close>: one pair for every version of every vendor.\<close>

definition vendor_version_pairs :: "jdks_dict \<Rightarrow> (string \<times> string) list" where
  "vendor_version_pairs jdks =
     concat (map (\<lambda>(vendor, versions).
                    map (\<lambda>(version, url). (removeprefix ''jdk@'' vendor, version)) versions)
                 jdks)"

definition available_jdks :: "index \<Rightarrow> configuration \<Rightarrow> (string \<times> string) list" where
  "available_jdks index conf =
     (case map_of index (conf_os conf) of
        None \<Rightarrow> []
      | Some archs \<Rightarrow>
          (case map_of archs (conf_arch conf) of
             None \<Rightarrow> []
           | Some jdks \<Rightarrow> sort (vendor_version_pairs jdks)))"

text \<open>The messages of the two \<^verbatim>\<open>KeyError\<close>s of \<^verbatim>\<open>resolve_jdk_version\<close>.\<close>

definition no_jdk_msg :: "configuration \<Rightarrow> string" where
  "no_jdk_msg conf =
     ''No '' @ conf_vendor conf @ '' JDK is available for '' @ conf_os conf @ ''-''
       @ conf_arch conf"

definition no_version_msg :: "configuration \<Rightarrow> string" where
  "no_version_msg conf =
     ''No JDK matching version '' @ conf_version conf @ '' for '' @ conf_os conf @ ''-''
       @ conf_arch conf @ ''-'' @ conf_vendor conf"

definition resolve_jdk_version :: "index \<Rightarrow> configuration \<Rightarrow> error + string" where
  "resolve_jdk_version index conf =
     (let jdks = available_jdks index conf;
          versions = map snd (filter (\<lambda>i. fst i = conf_vendor conf) jdks)
      in if versions = [] then Inl (KeyError (no_jdk_msg conf))
         else (case match_version (conf_vendor conf) versions (conf_version conf) of
                 Inl e \<Rightarrow> Inl e
               | Inr matched \<Rightarrow>
                   if matched = [] then Inl (KeyError (no_version_msg conf))
                   else Inr matched))"


definition version_body :: "string \<Rightarrow> string" where
  "version_body ver = (if endswith_plus ver then butlast ver else ver)"


subsection \<open>\<^verbatim>\<open>_fetch_index\<close>\<close>

text \<open>
  A JSON document as \<^verbatim>\<open>response.json()\<close> returns it: \<^verbatim>\<open>None\<close>, a bool, an int, a
  string, a list or a dict (the list of its items, in insertion order). Numbers with a
  fraction or an exponent are left out: the index holds strings only.
\<close>

datatype json =
    JNull
  | JBool bool
  | JInt int
  | JStr string
  | JArr "json list"
  | JObj "(string \<times> json) list"

text \<open>
  \<^verbatim>\<open>json.dump(index, outfile, indent=2, sort_keys=True)\<close>, as the encoder of the standard
  library writes it: strings between double quotes with the escapes of
  \<^verbatim>\<open>ensure_ascii\<close>; a non-empty list or dict with each element on a line of its own,
  indented by two spaces per level and separated by a comma at the end of the line; the
  items of a dict sorted by key, each key followed by a colon and a space; nothing after
  the closing bracket.
\<close>

definition hex_digit :: "nat \<Rightarrow> char" where
  "hex_digit n = (if n < 10 then char_of (48 + n) else char_of (87 + n))"

definition escape_char :: "char \<Rightarrow> string" where
  "escape_char c =
     (if c = CHR 0x22 then [CHR 0x5C, CHR 0x22]
      else if c = CHR 0x5C then [CHR 0x5C, CHR 0x5C]
      else if c = CHR 0x0A then [CHR 0x5C, CHR ''n'']
      else if c = CHR 0x0D then [CHR 0x5C, CHR ''r'']
      else if c = CHR 0x09 then [CHR 0x5C, CHR ''t'']
      else if c = CHR 0x08 then [CHR 0x5C, CHR ''b'']
      else if c = CHR 0x0C then [CHR 0x5C, CHR ''f'']
      else if 32 \<le> (of_char c :: nat) \<and> (of_char c :: nat) \<le> 126 then [c]
      else [CHR 0x5C, CHR ''u'', CHR ''0'', CHR ''0'',
            hex_digit ((of_char c :: nat) div 16), hex_digit ((of_char c :: nat) mod 16)])"

definition encode_str :: "string \<Rightarrow> string" where
  "encode_str s = [CHR 0x22] @ concat (map escape_char s) @ [CHR 0x22]"

fun digits :: "nat \<Rightarrow> string" where
  "digits n = (if n < 10 then [char_of (48 + n)] else digits (n div 10) @ [char_of (48 + n mod 10)])"

definition int_repr :: "int \<Rightarrow> string" where
  "int_repr i = (if i < 0 then CHR ''-'' # digits (nat (- i)) else digits (nat i))"

definition newline_indent :: "nat \<Rightarrow> string" where
  "newline_indent level = CHR 0x0A # replicate (2 * level) CHR '' ''"

fun join :: "string \<Rightarrow> string list \<Rightarrow> string" where
  "join sep [] = []"
| "join sep [x] = x"
| "join sep (x # y # ys) = x @ sep @ join sep (y # ys)"

function json_dump :: "nat \<Rightarrow> json \<Rightarrow> string" where
  "json_dump level JNull = ''null''"
| "json_dump level (JBool b) = (if b then ''true'' else ''false'')"
| "json_dump level (JInt i) = int_repr i"
| "json_dump level (JStr s) = encode_str s"
| "json_dump level (JArr xs) =
     (if xs = [] then ''[]''
      else ''['' @ newline_indent (level + 1)
           @ join ('','' @ newline_indent (level + 1)) (map (json_dump (level + 1)) xs)
           @ newline_indent level @ '']'')"
| "json_dump level (JObj kvs) =
     (if kvs = [] then ''{}''
      else ''{'' @ newline_indent (level + 1)
           @ join ('','' @ newline_indent (level + 1))
               (map (\<lambda>kv. encode_str (fst kv) @ '': '' @ json_dump (level + 1) (snd kv))
                    (sort_key fst kvs))
           @ newline_indent level @ ''}'')"
  by pat_completeness auto
termination
proof (relation "measure (\<lambda>(level, j). size j)")
  show "wf (measure (\<lambda>(level, j). size j))"
    by simp
next
  fix level :: nat and xs :: "json list" and x
  assume "x \<in> set xs"
  then show "((level + 1, x), (level, JArr xs)) \<in> measure (\<lambda>(level, j). size j)"
    by (induction xs) auto
next
  fix level :: nat and kvs :: "(string \<times> json) list" and kv
  assume "kv \<in> set (sort_key fst kvs)"
  then have "(fst kv, snd kv) \<in> set kvs"
    by simp
  then have "size (snd kv) < Suc (size_list (size_prod (\<lambda>x. 0) size) kvs)"
    by (induction kvs) auto
  then show "((level + 1, snd kv), (level, JObj kvs)) \<in> measure (\<lambda>(level, j). size j)"
    by simp
qed

text \<open>
  The keys of a dict are distinct, at every level of the document. Two documents are
  equal when they are the same but for the order of the items of their dicts.
\<close>

fun keys_distinct :: "json \<Rightarrow> bool" where
  "keys_distinct (JArr xs) = (\<forall>x\<in>set xs. keys_distinct x)"
| "keys_distinct (JObj kvs) = (distinct (map fst kvs) \<and> (\<forall>kv\<in>set kvs. keys_distinct (snd kv)))"
| "keys_distinct j = True"

inductive json_equal :: "json \<Rightarrow> json \<Rightarrow> bool" where
  eq_null: "json_equal JNull JNull"
| eq_bool: "json_equal (JBool b) (JBool b)"
| eq_int: "json_equal (JInt i) (JInt i)"
| eq_str: "json_equal (JStr s) (JStr s)"
| eq_arr: "list_all2 json_equal xs ys \<Longrightarrow> json_equal (JArr xs) (JArr ys)"
| eq_obj:
    "set (map fst xs) = set (map fst ys)
     \<Longrightarrow> (\<And>k v w. map_of xs k = Some v \<Longrightarrow> map_of ys k = Some w \<Longrightarrow> json_equal v w)
     \<Longrightarrow> json_equal (JObj xs) (JObj ys)"

text \<open>
  \<^verbatim>\<open>_fetch_index(dest, conf)\<close>. The network and \<^verbatim>\<open>urllib\<close> are parameters:
  \<open>urlparse_scheme\<close> stands for \<^verbatim>\<open>urlparse(url).scheme\<close> and \<open>requests_get\<close> for
  \<^verbatim>\<open>requests.get\<close>, whose response carries its status code, its text and what its
  \<^verbatim>\<open>json()\<close> method does. The files are a map from path to contents; \<^verbatim>\<open>open(dest, "w")\<close>
  replaces the contents of \<open>dest\<close>, and with \<^verbatim>\<open>newline="\n"\<close> and the ASCII encoding
  the bytes of the file are the characters written. The message of the second
  \<^verbatim>\<open>ValueError\<close> is not an f-string in the source, so the braces are part of it.
\<close>

record response =
  resp_status_code :: nat
  resp_text :: string
  resp_json :: "error + json"

definition isascii :: "string \<Rightarrow> bool" where
  "isascii s = list_all (\<lambda>c. (of_char c :: nat) < 128) s"

definition fetch_index ::
  "(string \<Rightarrow> string) \<Rightarrow> (string \<Rightarrow> response) \<Rightarrow> string \<Rightarrow> configuration
     \<Rightarrow> (string \<rightharpoonup> string) \<Rightarrow> error + (string \<rightharpoonup> string)" where
  "fetch_index urlparse_scheme requests_get dest conf files =
     (if \<not> conf_allow_insecure_for_testing conf
         \<and> urlparse_scheme (conf_index_url conf) \<noteq> ''https''
      then Inl (ValueError ''Index URL must be an HTTPS URL'')
      else
        (let response = requests_get (conf_index_url conf)
         in if 400 \<le> resp_status_code response \<and> resp_status_code response < 600
            then Inl HTTPError
            else if \<not> isascii (resp_text response)
            then Inl (ValueError
                   ''Index unexpectedly contains non-ASCII characters ({conf.index_url})'')
            else (case resp_json response of
                    Inl e \<Rightarrow> Inl e
                  | Inr index \<Rightarrow> Inr (files(dest \<mapsto> json_dump 0 index)))))"

subsection \<open>\<^verbatim>\<open>find_home\<close>\<close>

text \<open>
  The file system under a root: a regular file with its executable bit, or a directory
  with its entries. A directory is the map its entry list denotes (\<open>map_of\<close>), and a
  path is the list of its components below the root. Symbolic links and permissions on
  directories are not modelled.
\<close>

datatype tree = File bool | Dir "(string \<times> tree) list"

type_synonym path = "string list"

text \<open>
  The exceptions of \<^verbatim>\<open>_jdk.py\<close>: the \<^verbatim>\<open>RuntimeError\<close> of \<^verbatim>\<open>find_home\<close>, kept by the
  path its message names, and the two \<^verbatim>\<open>OSError\<close>s that \<^verbatim>\<open>Path.iterdir\<close> raises on a
  path that is missing or is not a directory.
\<close>

datatype jdk_error = RuntimeError path | FileNotFoundError path | NotADirectoryError path

fun lookup :: "tree \<Rightarrow> path \<Rightarrow> tree option" where
  "lookup t [] = Some t"
| "lookup t (n # ns) =
     (case t of
        File x \<Rightarrow> None
      | Dir es \<Rightarrow> (case map_of es n of None \<Rightarrow> None | Some t' \<Rightarrow> lookup t' ns))"

text \<open>\<^verbatim>\<open>Path.is_dir\<close>, \<^verbatim>\<open>Path.is_file\<close> (neither reads the executable bit) and
  \<^verbatim>\<open>Path.iterdir\<close>.\<close>

definition is_dir :: "tree \<Rightarrow> path \<Rightarrow> bool" where
  "is_dir fs p = (case lookup fs p of Some (Dir es) \<Rightarrow> True | _ \<Rightarrow> False)"

definition is_file :: "tree \<Rightarrow> path \<Rightarrow> bool" where
  "is_file fs p = (case lookup fs p of Some (File x) \<Rightarrow> True | _ \<Rightarrow> False)"

definition iterdir :: "tree \<Rightarrow> path \<Rightarrow> jdk_error + path list" where
  "iterdir fs p =
     (case lookup fs p of
        None \<Rightarrow> Inl (FileNotFoundError p)
      | Some (File x) \<Rightarrow> Inl (NotADirectoryError p)
      | Some (Dir es) \<Rightarrow> Inr (map (\<lambda>n. p @ [n]) (remdups (map fst es))))"

definition looks_like_java_home :: "tree \<Rightarrow> path \<Rightarrow> bool" where
  "looks_like_java_home fs p =
     (if \<not> is_dir fs (p @ [''bin'']) then False
      else if \<not> (is_file fs (p @ [''bin'', ''java'']) \<or> is_file fs (p @ [''bin'', ''java.exe'']))
      then False
      else True)"

text \<open>
  \<^verbatim>\<open>_contains_single_subdir\<close>: \<open>Inr None\<close> is Python's \<^verbatim>\<open>None\<close>. The order in which
  \<^verbatim>\<open>iterdir\<close> lists the entries is used only when there is one subdirectory.
\<close>

definition contains_single_subdir :: "tree \<Rightarrow> path \<Rightarrow> jdk_error + path option" where
  "contains_single_subdir fs p =
     (case iterdir fs p of
        Inl e \<Rightarrow> Inl e
      | Inr entries \<Rightarrow>
          (let items = filter (is_dir fs) entries
           in if length items = 1 then Inr (Some (hd items)) else Inr None))"

text \<open>
  \<^verbatim>\<open>find_home(path, _recursion_depth=2)\<close>. A \<^verbatim>\<open>Path\<close> is always true, so
  \<^verbatim>\<open>if subdir:\<close> tests for \<^verbatim>\<open>None\<close>. The recursion ends because the depth decreases
  while it is positive.
\<close>

definition macos_extra :: path where
  "macos_extra = [''Contents'', ''Home'']"

function find_home :: "tree \<Rightarrow> path \<Rightarrow> int \<Rightarrow> jdk_error + path" where
  "find_home fs p recursion_depth =
     (if looks_like_java_home fs p then Inr p
      else if looks_like_java_home fs (p @ macos_extra)
      then Inr (p @ macos_extra)
      else if recursion_depth > 0 then
        (case contains_single_subdir fs p of
           Inl e \<Rightarrow> Inl e
         | Inr None \<Rightarrow> Inl (RuntimeError p)
         | Inr (Some subdir) \<Rightarrow> find_home fs subdir (recursion_depth - 1))
      else Inl (RuntimeError p))"
  by pat_completeness auto
termination
  by (relation "measure (\<lambda>(fs, p, d). nat d)") auto

declare find_home.simps [simp del]

text \<open>
  The state machine of the specification, for comparison with \<open>find_home\<close>. A Java home
  is a directory whose \<^verbatim>\<open>bin\<close> entry is a directory that holds a regular file \<^verbatim>\<open>java\<close>
  or \<^verbatim>\<open>java.exe\<close>; \<open>has_executable_java\<close> asks in addition that the file be
  executable. \<open>only_subdir fs p n\<close> says that \<open>n\<close> names the one subdirectory of
  \<open>p\<close>.
\<close>

definition is_regular_file :: "tree option \<Rightarrow> bool" where
  "is_regular_file e = (case e of Some (File x) \<Rightarrow> True | _ \<Rightarrow> False)"

definition is_java_home :: "tree \<Rightarrow> path \<Rightarrow> bool" where
  "is_java_home fs p =
     (case lookup fs (p @ [''bin'']) of
        Some (Dir es) \<Rightarrow>
          is_regular_file (map_of es ''java'') \<or> is_regular_file (map_of es ''java.exe'')
      | _ \<Rightarrow> False)"

definition has_executable_java :: "tree \<Rightarrow> path \<Rightarrow> bool" where
  "has_executable_java fs p =
     (case lookup fs (p @ [''bin'']) of
        Some (Dir es) \<Rightarrow>
          map_of es ''java'' = Some (File True) \<or> map_of es ''java.exe'' = Some (File True)
      | _ \<Rightarrow> False)"

definition only_subdir :: "tree \<Rightarrow> path \<Rightarrow> string \<Rightarrow> bool" where
  "only_subdir fs p n = (is_dir fs (p @ [n]) \<and> (\<forall>m. is_dir fs (p @ [m]) \<longrightarrow> m = n))"

inductive find_home_spec :: "tree \<Rightarrow> path \<Rightarrow> int \<Rightarrow> jdk_error + path \<Rightarrow> bool" where
  IsHome: "is_java_home fs p \<Longrightarrow> find_home_spec fs p budget (Inr p)"
| MacBundle:
    "\<not> is_java_home fs p \<Longrightarrow> is_java_home fs (p @ macos_extra)
     \<Longrightarrow> find_home_spec fs p budget (Inr (p @ macos_extra))"
| SingleChildDescend:
    "\<not> is_java_home fs p \<Longrightarrow> \<not> is_java_home fs (p @ macos_extra)
     \<Longrightarrow> budget > 0 \<Longrightarrow> only_subdir fs p n
     \<Longrightarrow> find_home_spec fs (p @ [n]) (budget - 1) r
     \<Longrightarrow> find_home_spec fs p budget r"
| Failure:
    "\<not> is_java_home fs p \<Longrightarrow> \<not> is_java_home fs (p @ macos_extra)
     \<Longrightarrow> budget \<le> 0 \<or> \<not> (\<exists>n. only_subdir fs p n)
     \<Longrightarrow> find_home_spec fs p budget (Inl (RuntimeError p))"

section \<open>The compatibility test\<close>

lemma Plus_notin_Num [simp]: "Plus \<notin> Num ` A"
  by auto

lemma last_map_Num_ne_Plus [simp]: "ss \<noteq> [] \<Longrightarrow> last (map Num ss) \<noteq> Plus"
  by (simp add: last_map)

lemma map_Num_eq_iff [simp]: "map Num xs = map Num ys \<longleftrightarrow> xs = ys"
  by (simp add: inj_on_def)

lemma take_map_Num_eq: "take n (map Num vs) = map Num ss \<longleftrightarrow> take n vs = ss"
  by (simp add: take_map)

lemma compatible_plain:
  "is_version_compatible_with_spec (map Num vs) (map Num ss) = Inr (prefix ss vs)"
proof -
  have "(length ss \<le> length vs \<and> take (length ss) vs = ss) \<longleftrightarrow> prefix ss vs"
    by (metis append_eq_conv_conj append_take_drop_id length_take min.absorb2 nat_le_linear
        prefix_def take_all)
  then show ?thesis
    by (cases "ss = []") (simp_all add: is_version_compatible_with_spec_def take_map_Num_eq)
qed

lemma compatible_bare_plus:
  "is_version_compatible_with_spec (map Num vs) [Plus] = Inr True"
  by (simp add: is_version_compatible_with_spec_def)

lemma compatible_plus:
  "is_version_compatible_with_spec (map Num vs) (map Num p @ [Num l, Plus])
     = Inr (length p < length vs \<and> take (length p) vs = p \<and> l \<le> vs ! length p)"
proof -
  have "take (length p) (map Num vs) = map Num p \<longleftrightarrow> take (length p) vs = p"
    by (rule take_map_Num_eq)
  then show ?thesis
    by (auto simp add: is_version_compatible_with_spec_def Let_def butlast_append Suc_le_eq)
qed

section \<open>Order of keys\<close>

lemma ints_simps [simp]:
  "ints [] = []" "ints (Num n # k) = n # ints k" "ints (Plus # k) = ints k"
  "ints (a @ b) = ints a @ ints b"
  by (simp_all add: ints_def)

lemma ints_map_Num [simp]: "ints (map Num xs) = xs"
  by (induction xs) simp_all

lemma map_Num_ints: "Plus \<notin> set k \<Longrightarrow> map Num (ints k) = k"
proof (induction k)
  case Nil
  show ?case by simp
next
  case (Cons e k)
  then show ?case by (cases e) simp_all
qed

lemma tuple_lt_Num: "tuple_lt (map Num a) (map Num b) = Inr (a < b)"
proof (induction a arbitrary: b)
  case Nil
  show ?case by (cases b) simp_all
next
  case (Cons x a)
  show ?case
  proof (cases b)
    case Nil
    then show ?thesis by simp
  next
    case (Cons y b')
    with Cons.IH [of b'] show ?thesis by auto
  qed
qed

lemma tuple_gt_Num: "tuple_gt (map Num a) (map Num b) = Inr (b < a)"
proof (induction a arbitrary: b)
  case Nil
  show ?case by simp
next
  case (Cons x a)
  show ?case
  proof (cases b)
    case Nil
    then show ?thesis by simp
  next
    case (Cons y b')
    with Cons.IH [of b'] show ?thesis by auto
  qed
qed

lemma tuple_gt_Num_Plus:
  "\<not> prefix s v \<Longrightarrow> tuple_gt (map Num v) (map Num s @ [Plus]) = Inr (s < v)"
proof (induction v arbitrary: s)
  case Nil
  then show ?case by simp
next
  case (Cons x v)
  show ?case
  proof (cases s)
    case Nil
    with Cons.prems show ?thesis by simp
  next
    case (Cons y s')
    with Cons.prems Cons.IH [of s'] show ?thesis by auto
  qed
qed

lemma append_less_same: "p @ a < p @ b \<longleftrightarrow> a < (b :: int list)"
  by (induction p) simp_all

lemma append_le_same: "p @ a \<le> p @ b \<longleftrightarrow> a \<le> (b :: int list)"
  by (induction p) simp_all

lemma prefix_le: "prefix s v \<Longrightarrow> s \<le> (v :: int list)"
  by (auto simp: prefix_def append_le_same [of s "[]", simplified])

lemma normalize_version_shape:
  assumes "normalize_version ver rp = Inr k"
  shows "if endswith_plus ver then (\<exists>s. k = map Num s @ [Plus]) else (\<exists>s. k = map Num s)"
proof (cases "(if endswith_plus ver then butlast ver else ver) = []")
  case True
  with assms have "k = (if endswith_plus ver then [Plus] else [])"
    by (auto simp: normalize_version_def Let_def split: if_splits)
  then show ?thesis
    by (auto intro: exI [of _ "[]"])
next
  case False
  with assms obtain ns where k: "k = map Num ns @ (if endswith_plus ver then [Plus] else [])
      \<or> k = tl (map Num ns) @ (if endswith_plus ver then [Plus] else [])"
    by (auto simp: normalize_version_def Let_def split: if_splits option.splits)
  have "tl (map Num ns) = map Num (tl ns)"
    by (simp add: map_tl)
  with k show ?thesis
    by (cases "endswith_plus ver") auto
qed

lemma compatible_ge:
  assumes "is_version_compatible_with_spec (map Num v) normreq = Inr True"
    and "normreq = map Num s \<or> normreq = map Num s @ [Plus]"
  shows "s \<le> v"
proof -
  consider (plain) "normreq = map Num s" | (bare) "s = []" "normreq = [Plus]"
    | (plus) p l where "s = p @ [l]" "normreq = map Num (p @ [l]) @ [Plus]"
    using assms(2) by (cases s rule: rev_cases) auto
  then show ?thesis
  proof cases
    case plain
    with assms(1) show ?thesis by (simp add: compatible_plain prefix_le)
  next
    case bare
    then show ?thesis by simp
  next
    case plus
    with assms(1) have *: "length p < length v" "take (length p) v = p" "l \<le> v ! length p"
      by (simp_all add: compatible_plus)
    then have "v = p @ (v ! length p) # drop (Suc (length p)) v"
      by (metis append_take_drop_id Cons_nth_drop_Suc)
    then obtain r c where v: "v = p @ c # r" and "l \<le> c"
      using * by blast
    then show ?thesis
      unfolding plus v by (auto simp add: append_le_same)
  qed
qed

lemma compatible_total:
  assumes "normreq = map Num s \<or> normreq = map Num s @ [Plus]"
  shows "\<exists>b. is_version_compatible_with_spec (map Num v) normreq = Inr b"
proof -
  consider (plain) "normreq = map Num s" | (bare) "s = []" "normreq = [Plus]"
    | (plus) p l where "s = p @ [l]" "normreq = map Num (p @ [l]) @ [Plus]"
    using assms by (cases s rule: rev_cases) auto
  then show ?thesis
    by cases (auto simp add: compatible_plain compatible_bare_plus compatible_plus)
qed

lemma incompatible_gt:
  assumes "is_version_compatible_with_spec (map Num v) normreq = Inr False"
    and "normreq = map Num s \<or> normreq = map Num s @ [Plus]"
  shows "tuple_gt (map Num v) normreq = Inr (s < v)"
proof -
  consider (plain) "normreq = map Num s" | (bare) "s = []" "normreq = [Plus]"
    | (plus) p l where "s = p @ [l]" "normreq = map Num (p @ [l]) @ [Plus]"
    using assms(2) by (cases s rule: rev_cases) auto
  then show ?thesis
  proof cases
    case plain
    then show ?thesis by (simp add: tuple_gt_Num)
  next
    case bare
    with assms(1) show ?thesis by (simp add: compatible_bare_plus)
  next
    case plus
    have "\<not> prefix s v"
    proof
      assume "prefix s v"
      then obtain r where "v = p @ l # r"
        unfolding plus by (auto simp: prefix_def)
      then have "is_version_compatible_with_spec (map Num v) normreq = Inr True"
        unfolding plus using compatible_plus [of "p @ l # r" p l] by simp
      with assms(1) show False by simp
    qed
    then show ?thesis
      unfolding plus(2) plus(1) [symmetric] by (rule tuple_gt_Num_Plus)
  qed
qed

section \<open>The matcher\<close>

lemma set_insert_desc [simp]: "set (insert_desc k xs) = insert k (set xs)"
  by (induction xs) auto

lemma set_sort_desc [simp]: "set (sort_desc ks) = set ks"
  by (induction ks) auto

lemma descending_insert_desc:
  assumes "descending (map (map Num) xs)"
  shows "descending (insert_desc (map Num k) (map (map Num) xs))"
  using assms
proof (induction xs)
  case Nil
  show ?case by (simp add: descending_def)
next
  case (Cons x xs)
  then have IH: "descending (insert_desc (map Num k) (map (map Num) xs))"
    by (simp add: descending_def)
  show ?case
  proof (cases "k < x")
    case True
    with Cons.prems IH show ?thesis
      by (auto simp: descending_def tuple_lt_Num)
  next
    case False
    with Cons.prems show ?thesis
      by (auto simp: descending_def tuple_lt_Num)
  qed
qed

lemma sort_desc_Num_ex: "\<exists>ys. sort_desc (map (map Num) ks) = map (map Num) ys"
proof -
  have "map (map Num) (map ints (sort_desc (map (map Num) ks))) = sort_desc (map (map Num) ks)"
    unfolding map_map comp_def by (rule map_idI) auto
  then show ?thesis by metis
qed

lemma descending_sort_desc: "descending (sort_desc (map (map Num) ks))"
proof (induction ks)
  case Nil
  show ?case by (simp add: descending_def)
next
  case (Cons k ks)
  obtain ys where ys: "sort_desc (map (map Num) ks) = map (map Num) ys"
    using sort_desc_Num_ex by blast
  with Cons.IH show ?case
    by (simp add: descending_insert_desc)
qed

lemma sorted_reverse_Num:
  "sorted_reverse (map (map Num) ks) = Inr (sort_desc (map (map Num) ks))"
  by (auto simp: sorted_reverse_def list_all_iff comparable_def tuple_lt_Num)

lemma map_of_fill_normcands:
  "map_of (fill_normcands rp cs acc) k =
     (case filter (\<lambda>c. normalize_version c rp = Inr k) cs of
        [] \<Rightarrow> map_of acc k
      | x # xs \<Rightarrow> Some (last (x # xs)))"
proof (induction cs arbitrary: acc)
  case Nil
  show ?case by simp
next
  case (Cons c cs)
  show ?case
  proof (cases "normalize_version c rp")
    case (Inl e)
    then show ?thesis by (simp add: Cons.IH)
  next
    case (Inr k')
    then show ?thesis
      by (simp add: Cons.IH update_conv' split: list.splits)
  qed
qed

lemma keys_fill_normcands:
  "k \<in> set (map fst (fill_normcands rp cs [])) \<longleftrightarrow> (\<exists>c\<in>set cs. normalize_version c rp = Inr k)"
proof -
  have "k \<in> set (map fst (fill_normcands rp cs [])) \<longleftrightarrow> map_of (fill_normcands rp cs []) k \<noteq> None"
    by (metis domIff dom_map_of_conv_image_fst set_map)
  also have "\<dots> \<longleftrightarrow> filter (\<lambda>c. normalize_version c rp = Inr k) cs \<noteq> []"
    by (simp add: map_of_fill_normcands split: list.splits)
  also have "\<dots> \<longleftrightarrow> (\<exists>c\<in>set cs. normalize_version c rp = Inr k)"
    by (simp add: filter_empty_conv)
  finally show ?thesis .
qed

lemma scan_all_incompatible:
  assumes "\<forall>k\<in>set L. is_version_compatible_with_spec k normreq = Inr False"
  shows "scan_all nc normreq msg L = Inl (LookupError msg)"
  using assms by (induction L) simp_all

lemma scan_eq_scan_all:
  assumes shape: "normreq = map Num s \<or> normreq = map Num s @ [Plus]"
    and desc: "descending (map (map Num) L)"
  shows "scan nc normreq msg (map (map Num) L) = scan_all nc normreq msg (map (map Num) L)"
  using desc
proof (induction L)
  case Nil
  show ?case by simp
next
  case (Cons k L)
  then have IH: "scan nc normreq msg (map (map Num) L) = scan_all nc normreq msg (map (map Num) L)"
    and below: "\<forall>k'\<in>set L. k' \<le> k"
    by (auto simp: descending_def)
  obtain b where b: "is_version_compatible_with_spec (map Num k) normreq = Inr b"
    using compatible_total [OF shape] by blast
  show ?case
  proof (cases b)
    case True
    with b show ?thesis by simp
  next
    case False
    with b have gt: "tuple_gt (map Num k) normreq = Inr (s < k)"
      using incompatible_gt [OF _ shape] by simp
    show ?thesis
    proof (cases "s < k")
      case True
      with b False gt IH show ?thesis by simp
    next
      case nogt: False
      have "\<forall>k'\<in>set (map (map Num) L). is_version_compatible_with_spec k' normreq = Inr False"
      proof
        fix k' assume "k' \<in> set (map (map Num) L)"
        then obtain j where j: "j \<in> set L" "k' = map Num j" by auto
        obtain b' where b': "is_version_compatible_with_spec (map Num j) normreq = Inr b'"
          using compatible_total [OF shape] by blast
        have "\<not> b'"
        proof
          assume b'
          with b' have "s \<le> j" using compatible_ge [OF _ shape] by simp
          moreover have "j \<le> k" using below j by simp
          ultimately have "j = k" using nogt by simp
          with b' b False \<open>b'\<close> show False by simp
        qed
        with b' j show "is_version_compatible_with_spec k' normreq = Inr False" by simp
      qed
      then have "scan_all nc normreq msg (map (map Num) L) = Inl (LookupError msg)"
        by (rule scan_all_incompatible)
      with b False gt nogt show ?thesis by simp
    qed
  qed
qed

lemma scan_all_first:
  assumes shape: "normreq = map Num s \<or> normreq = map Num s @ [Plus]"
  shows "scan_all nc normreq msg (map (map Num) L) =
     (case filter (\<lambda>k. is_version_compatible_with_spec (map Num k) normreq = Inr True) L of
        [] \<Rightarrow> Inl (LookupError msg)
      | k # ks \<Rightarrow> (case map_of nc (map Num k) of None \<Rightarrow> Inl (KeyError []) | Some c \<Rightarrow> Inr c))"
proof (induction L)
  case Nil
  show ?case by simp
next
  case (Cons k L)
  obtain b where b: "is_version_compatible_with_spec (map Num k) normreq = Inr b"
    using compatible_total [OF shape] by blast
  with Cons.IH show ?case by (cases b) simp_all
qed

lemma descending_filter_hd:
  assumes "descending (map (map Num) L)" and "filter P L = k # ks" and "j \<in> set L" and "P j"
  shows "j \<le> k"
proof -
  have "sorted_wrt (\<lambda>a b. b \<le> a) L"
    using assms(1) by (simp add: descending_def sorted_wrt_map)
  then have "sorted_wrt (\<lambda>a b. b \<le> a) (filter P L)"
    by (rule sorted_wrt_filter)
  moreover have "j \<in> set (filter P L)"
    using assms(3,4) by simp
  ultimately show ?thesis
    unfolding assms(2) by auto
qed

lemma map_Num_ints_all:
  "\<forall>k\<in>set ks. Plus \<notin> set k \<Longrightarrow> map (map Num) (map ints ks) = ks"
  by (induction ks) (simp_all add: map_Num_ints)

lemma match_version_main:
  assumes req: "normalize_version requested (\<not> is_graal vendor) = Inr normreq"
    and cands: "\<forall>c\<in>set candidates. \<forall>k. normalize_version c (\<not> is_graal vendor) = Inr k
                  \<longrightarrow> Plus \<notin> set k"
  shows "match_version vendor candidates requested
           = match_version_full_scan vendor candidates requested
       \<and> (if compatible_candidates (\<not> is_graal vendor) normreq candidates = []
          then match_version vendor candidates requested
                 = Inl (LookupError (no_match_msg vendor requested))
          else \<exists>c k. match_version vendor candidates requested = Inr c
                 \<and> c \<in> set (compatible_candidates (\<not> is_graal vendor) normreq candidates)
                 \<and> normalize_version c (\<not> is_graal vendor) = Inr k
                 \<and> c = last (filter (\<lambda>c'. normalize_version c' (\<not> is_graal vendor) = Inr k) candidates)
                 \<and> (\<forall>c'\<in>set (compatible_candidates (\<not> is_graal vendor) normreq candidates).
                      \<forall>k'. normalize_version c' (\<not> is_graal vendor) = Inr k'
                        \<longrightarrow> tuple_gt k' k = Inr False))"
proof -
  define rp where "rp = (\<not> is_graal vendor)"
  define nc where "nc = fill_normcands rp candidates []"
  define msg where "msg = no_match_msg vendor requested"
  define L where "L = map ints (sort_desc (map fst nc))"
  define P where "P = (\<lambda>k. is_version_compatible_with_spec (map Num k) normreq = Inr True)"
  note req' = req [folded rp_def]
  obtain s where shape: "normreq = map Num s \<or> normreq = map Num s @ [Plus]"
    using normalize_version_shape [OF req'] by (auto split: if_splits)
  have keys: "k \<in> set (map fst nc) \<longleftrightarrow> (\<exists>c\<in>set candidates. normalize_version c rp = Inr k)" for k
    unfolding nc_def by (rule keys_fill_normcands)
  have free: "Plus \<notin> set k" if "k \<in> set (map fst nc)" for k
    using that cands keys rp_def by blast
  have id1: "map (map Num) (map ints (map fst nc)) = map fst nc"
    using free by (intro map_Num_ints_all) blast
  have sorted: "sorted_reverse (map fst nc) = Inr (sort_desc (map fst nc))"
    by (rule sorted_reverse_Num [of "map ints (map fst nc)", unfolded id1])
  have "map (map Num) L = sort_desc (map fst nc)"
    unfolding L_def using free by (intro map_Num_ints_all) simp
  then have L: "sort_desc (map fst nc) = map (map Num) L" by simp
  have desc: "descending (map (map Num) L)"
    by (rule descending_sort_desc [of "map ints (map fst nc)", unfolded id1 L])
  have setL: "j \<in> set L \<longleftrightarrow> (\<exists>c\<in>set candidates. normalize_version c rp = Inr (map Num j))" for j
  proof -
    have "j \<in> set L \<longleftrightarrow> map Num j \<in> set (map (map Num) L)"
      by (auto simp: inj_on_def)
    also have "\<dots> \<longleftrightarrow> map Num j \<in> set (map fst nc)"
      unfolding L [symmetric] by simp
    finally show ?thesis using keys by simp
  qed
  have m: "match_version vendor candidates requested = scan nc normreq msg (map (map Num) L)"
    by (simp add: match_version_def Let_def req' sorted L flip: rp_def nc_def msg_def)
  have f: "match_version_full_scan vendor candidates requested
             = scan_all nc normreq msg (map (map Num) L)"
    by (simp add: match_version_full_scan_def Let_def req' sorted L flip: rp_def nc_def msg_def)
  have eq: "scan nc normreq msg (map (map Num) L) = scan_all nc normreq msg (map (map Num) L)"
    by (rule scan_eq_scan_all [OF shape desc])
  have first: "scan_all nc normreq msg (map (map Num) L) =
     (case filter P L of
        [] \<Rightarrow> Inl (LookupError msg)
      | k # ks \<Rightarrow> (case map_of nc (map Num k) of None \<Rightarrow> Inl (KeyError []) | Some c \<Rightarrow> Inr c))"
    unfolding P_def by (rule scan_all_first [OF shape])
  have cc: "c \<in> set (compatible_candidates rp normreq candidates)
      \<longleftrightarrow> c \<in> set candidates \<and> (\<exists>j. normalize_version c rp = Inr (map Num j) \<and> P j)" for c
  proof (cases "normalize_version c rp")
    case (Inl e)
    then show ?thesis by (simp add: compatible_candidates_def)
  next
    case (Inr k)
    show ?thesis
    proof (cases "c \<in> set candidates")
      case True
      then have "map Num (ints k) = k"
        using Inr cands rp_def map_Num_ints by blast
      then obtain i where i: "k = map Num i" by metis
      show ?thesis
        using Inr True unfolding i by (auto simp: compatible_candidates_def P_def)
    next
      case False
      then show ?thesis by (simp add: compatible_candidates_def)
    qed
  qed
  have empty_iff: "compatible_candidates rp normreq candidates = [] \<longleftrightarrow> filter P L = []"
  proof -
    have "compatible_candidates rp normreq candidates = []
        \<longleftrightarrow> (\<forall>c. c \<notin> set (compatible_candidates rp normreq candidates))"
      by auto
    also have "\<dots> \<longleftrightarrow> (\<forall>j\<in>set L. \<not> P j)"
      unfolding cc using setL by blast
    also have "\<dots> \<longleftrightarrow> filter P L = []"
      by (simp add: filter_empty_conv)
    finally show ?thesis .
  qed
  show ?thesis
  proof (cases "filter P L")
    case Nil
    with m f eq first empty_iff show ?thesis
      by (simp add: rp_def msg_def)
  next
    case (Cons k ks)
    then have "k \<in> set (filter P L)"
      by simp
    then have kP: "P k" and kL: "k \<in> set L"
      by simp_all
    define xs where "xs = filter (\<lambda>c. normalize_version c rp = Inr (map Num k)) candidates"
    have "xs \<noteq> []"
      using kL setL by (auto simp: xs_def filter_empty_conv)
    then have look: "map_of nc (map Num k) = Some (last xs)"
      unfolding nc_def xs_def by (simp add: map_of_fill_normcands split: list.splits)
    have "last xs \<in> set xs"
      using \<open>xs \<noteq> []\<close> by simp
    then have c_in: "last xs \<in> set candidates" and c_key: "normalize_version (last xs) rp = Inr (map Num k)"
      by (simp_all add: xs_def)
    have res: "match_version vendor candidates requested = Inr (last xs)"
      using m eq first Cons look by simp
    have max: "tuple_gt k' (map Num k) = Inr False"
      if "c' \<in> set (compatible_candidates rp normreq candidates)" "normalize_version c' rp = Inr k'"
      for c' k'
    proof -
      from that obtain j where j: "c' \<in> set candidates" "k' = map Num j" "P j"
        unfolding cc by auto
      then have "j \<in> set L" using that(2) setL by auto
      then have "j \<le> k" using descending_filter_hd [OF desc Cons] j(3) by simp
      then show ?thesis unfolding j(2) by (simp add: tuple_gt_Num)
    qed
    have in_cc: "last xs \<in> set (compatible_candidates rp normreq candidates)"
      unfolding cc using c_in c_key kP by blast
    have nonempty: "compatible_candidates rp normreq candidates \<noteq> []"
      using empty_iff Cons by simp
    have "\<exists>c k. match_version vendor candidates requested = Inr c
                 \<and> c \<in> set (compatible_candidates rp normreq candidates)
                 \<and> normalize_version c rp = Inr k
                 \<and> c = last (filter (\<lambda>c'. normalize_version c' rp = Inr k) candidates)
                 \<and> (\<forall>c'\<in>set (compatible_candidates rp normreq candidates).
                      \<forall>k'. normalize_version c' rp = Inr k' \<longrightarrow> tuple_gt k' k = Inr False)"
      using res in_cc c_key max xs_def by blast
    with nonempty m f eq show ?thesis
      by (simp add: rp_def)
  qed
qed

section \<open>Normalization\<close>

lemma normalize_empty: "normalize_version [] rp = Inr []"
  by (simp add: normalize_version_def endswith_plus_def)

lemma normalize_1: "normalize_version ''1'' True = Inr []"
  by code_simp

lemma normalize_1_plus: "normalize_version ''1+'' True = Inr [Plus]"
  by code_simp

lemma compatible_empty: "is_version_compatible_with_spec (map Num vs) [] = Inr True"
  by (simp add: is_version_compatible_with_spec_def)

lemma compatible_candidates_all:
  assumes "normreq = [] \<or> normreq = [Plus]"
    and "\<forall>c\<in>set candidates. \<forall>k. normalize_version c rp = Inr k \<longrightarrow> Plus \<notin> set k"
  shows "c \<in> set (compatible_candidates rp normreq candidates)
           \<longleftrightarrow> c \<in> set candidates \<and> (\<exists>k. normalize_version c rp = Inr k)"
proof (cases "normalize_version c rp")
  case (Inl e)
  then show ?thesis by (simp add: compatible_candidates_def)
next
  case (Inr k)
  show ?thesis
  proof (cases "c \<in> set candidates")
    case True
    with Inr assms(2) have "map Num (ints k) = k"
      using map_Num_ints by blast
    then obtain vs where "k = map Num vs" by metis
    with Inr True assms(1) show ?thesis
      by (auto simp: compatible_candidates_def compatible_empty compatible_bare_plus)
  next
    case False
    then show ?thesis by (simp add: compatible_candidates_def)
  qed
qed

lemma plus_candidate_asserts:
  assumes "endswith_plus c" and "normalize_version c rp = Inr k"
  shows "is_version_compatible_with_spec k spec = Inl AssertionError"
proof -
  from normalize_version_shape [OF assms(2)] assms(1) obtain s where "k = map Num s @ [Plus]"
    by auto
  then show ?thesis
    by (simp add: is_version_compatible_with_spec_def)
qed

lemma normalize_remove_prefix_1:
  "normalize_version ver True =
     (case normalize_version ver False of
        Inl e \<Rightarrow> Inl e
      | Inr k \<Rightarrow> Inr (if k \<noteq> [] \<and> hd k = Num 1 then tl k else k))"
proof (cases "(if endswith_plus ver then butlast ver else ver) = []")
  case True
  then show ?thesis
    by (simp add: normalize_version_def Let_def)
next
  case False
  show ?thesis
  proof (cases "those (map py_int (re_split (if endswith_plus ver then butlast ver else ver)))")
    case None
    with False show ?thesis
      by (simp add: normalize_version_def Let_def)
  next
    case (Some ns)
    with False show ?thesis
      by (cases ns) (simp_all add: normalize_version_def Let_def)
  qed
qed

lemma n180: "normalize_version ''1.8.0'' True = Inr [Num 8, Num 0]"
  "normalize_version ''8.0'' True = Inr [Num 8, Num 0]"
  "normalize_version ''1.8.0'' False = Inr [Num 1, Num 8, Num 0]"
  "normalize_version ''8.0'' False = Inr [Num 8, Num 0]"
  by code_simp+

lemma match_single:
  assumes "normalize_version c rp = Inr (map Num v)" and "rp = (\<not> is_graal vendor)"
  shows "match_version vendor [c] requested =
     (case normalize_version requested rp of
        Inl e \<Rightarrow> Inl e
      | Inr normreq \<Rightarrow>
          (case is_version_compatible_with_spec (map Num v) normreq of
             Inl e \<Rightarrow> Inl e
           | Inr True \<Rightarrow> Inr c
           | Inr False \<Rightarrow>
               (case tuple_gt (map Num v) normreq of
                  Inl e \<Rightarrow> Inl e
                | Inr b \<Rightarrow> Inl (LookupError (no_match_msg vendor requested)))))"
proof -
  have "sorted_reverse [map Num v] = Inr [map Num v]"
    using sorted_reverse_Num [of "[v]"] by simp
  with assms show ?thesis
    by (simp add: match_version_def Let_def split: sum.splits bool.splits)
qed

lemma match_same_requests:
  assumes "\<not> is_graal vendor"
  shows "(match_version vendor [''1.8.0''] requested = Inr ''1.8.0'')
           = (match_version vendor [''8.0''] requested = Inr ''8.0'')"
    and "(match_version vendor [''1.8.0''] requested = Inl e)
           = (match_version vendor [''8.0''] requested = Inl e)"
proof -
  have a: "normalize_version ''1.8.0'' True = Inr (map Num [8, 0])"
    and b: "normalize_version ''8.0'' True = Inr (map Num [8, 0])"
    by (simp_all add: n180)
  have rp: "True = (\<not> is_graal vendor)" using assms by simp
  show "(match_version vendor [''1.8.0''] requested = Inr ''1.8.0'')
           = (match_version vendor [''8.0''] requested = Inr ''8.0'')"
    unfolding match_single [OF a rp] match_single [OF b rp]
    by (simp split: sum.splits bool.splits)
  show "(match_version vendor [''1.8.0''] requested = Inl e)
           = (match_version vendor [''8.0''] requested = Inl e)"
    unfolding match_single [OF a rp] match_single [OF b rp]
    by (simp split: sum.splits bool.splits)
qed








lemma normalize_fails_ValueError:
  "normalize_version ver rp = Inl e \<Longrightarrow> e = ValueError (''Invalid version string: '' @ version_body ver)"
  by (auto simp: normalize_version_def Let_def version_body_def split: option.splits if_splits)









lemma contains_iff: "contains needle hay \<longleftrightarrow> (\<exists>p s. hay = p @ needle @ s)"
proof (induction hay)
  case Nil
  show ?case by auto
next
  case (Cons c cs)
  have "(\<exists>p s. c # cs = p @ needle @ s)
      \<longleftrightarrow> (\<exists>s. c # cs = needle @ s) \<or> (\<exists>p s. cs = p @ needle @ s)"
  proof
    assume "\<exists>p s. c # cs = p @ needle @ s"
    then obtain p s where ps: "c # cs = p @ needle @ s" by blast
    show "(\<exists>s. c # cs = needle @ s) \<or> (\<exists>p s. cs = p @ needle @ s)"
    proof (cases p)
      case Nil
      with ps show ?thesis by auto
    next
      case (Cons a p')
      with ps have "cs = p' @ needle @ s" by simp
      then show ?thesis by blast
    qed
  next
    assume "(\<exists>s. c # cs = needle @ s) \<or> (\<exists>p s. cs = p @ needle @ s)"
    then show "\<exists>p s. c # cs = p @ needle @ s"
    proof
      assume "\<exists>s. c # cs = needle @ s"
      then obtain s where "c # cs = [] @ needle @ s" by auto
      then show ?thesis by blast
    next
      assume "\<exists>p s. cs = p @ needle @ s"
      then obtain p s where "c # cs = (c # p) @ needle @ s" by auto
      then show ?thesis by blast
    qed
  qed
  with Cons.IH show ?case
    by (simp add: prefix_def)
qed











lemma scan_returns:
  assumes "scan nc normreq msg keys = Inr c"
  shows "\<exists>k\<in>set keys. is_version_compatible_with_spec k normreq = Inr True
           \<and> map_of nc k = Some c"
  using assms
proof (induction keys)
  case Nil
  then show ?case by simp
next
  case (Cons k keys)
  show ?case
  proof (cases "is_version_compatible_with_spec k normreq = Inr True")
    case True
    with Cons.prems have "map_of nc k = Some c"
      by (simp split: option.splits)
    with True show ?thesis by simp
  next
    case False
    with Cons.prems have "scan nc normreq msg keys = Inr c"
      by (auto split: sum.splits bool.splits)
    then show ?thesis
      using Cons.IH by simp
  qed
qed

lemma sorted_reverse_set: "sorted_reverse ks = Inr keys \<Longrightarrow> set keys = set ks"
  by (auto simp: sorted_reverse_def split: if_splits)

lemma fill_normcands_value:
  assumes "map_of (fill_normcands rp cs []) k = Some c"
  shows "c \<in> set cs \<and> normalize_version c rp = Inr k"
proof -
  let ?xs = "filter (\<lambda>c. normalize_version c rp = Inr k) cs"
  from assms have "?xs \<noteq> []" and "c = last ?xs"
    by (auto simp: map_of_fill_normcands split: list.splits)
  then have "c \<in> set ?xs"
    using last_in_set by blast
  then show ?thesis by simp
qed

lemma match_version_returns:
  assumes "match_version vendor candidates requested = Inr c"
  shows "c \<in> set candidates
       \<and> (\<exists>normreq k. normalize_version requested (\<not> is_graal vendor) = Inr normreq
             \<and> normalize_version c (\<not> is_graal vendor) = Inr k
             \<and> is_version_compatible_with_spec k normreq = Inr True)"
proof -
  let ?rp = "\<not> is_graal vendor"
  let ?nc = "fill_normcands ?rp candidates []"
  from assms obtain normreq where req: "normalize_version requested ?rp = Inr normreq"
    by (cases "normalize_version requested ?rp") (simp_all add: match_version_def Let_def)
  with assms obtain keys where keys: "sorted_reverse (map fst ?nc) = Inr keys"
    by (cases "sorted_reverse (map fst ?nc)") (simp_all add: match_version_def Let_def)
  with assms req have "scan ?nc normreq (no_match_msg vendor requested) keys = Inr c"
    by (simp add: match_version_def Let_def)
  then obtain k where k: "is_version_compatible_with_spec k normreq = Inr True"
      "map_of ?nc k = Some c"
    using scan_returns by blast
  from k(2) have "c \<in> set candidates" "normalize_version c ?rp = Inr k"
    using fill_normcands_value by blast+
  with req k(1) show ?thesis by blast
qed

lemma match_examples_standard:
  assumes "\<not> is_graal vendor"
  shows "match_version vendor [''1.8.0''] ''8'' = Inr ''1.8.0''"
    and "match_version vendor [''8.0''] ''1.8'' = Inr ''8.0''"
    and "match_version vendor [''1.8.0''] ''1.8'' = Inr ''1.8.0''"
    and "match_version vendor [''8.0''] ''8'' = Inr ''8.0''"
proof -
  have a: "normalize_version ''1.8.0'' True = Inr (map Num [8, 0])"
    and b: "normalize_version ''8.0'' True = Inr (map Num [8, 0])"
    by (simp_all add: n180)
  have r: "normalize_version ''8'' True = Inr [Num 8]" "normalize_version ''1.8'' True = Inr [Num 8]"
    by code_simp+
  have c: "is_version_compatible_with_spec (map Num [8, 0]) [Num 8] = Inr True"
    by (simp add: is_version_compatible_with_spec_def)
  have rp: "True = (\<not> is_graal vendor)" using assms by simp
  show "match_version vendor [''1.8.0''] ''8'' = Inr ''1.8.0''"
    "match_version vendor [''1.8.0''] ''1.8'' = Inr ''1.8.0''"
    unfolding match_single [OF a rp] by (simp_all only: r c sum.case bool.case)
  show "match_version vendor [''8.0''] ''1.8'' = Inr ''8.0''"
    "match_version vendor [''8.0''] ''8'' = Inr ''8.0''"
    unfolding match_single [OF b rp] by (simp_all only: r c sum.case bool.case)
qed

lemma match_examples_graal:
  assumes "is_graal vendor"
  shows "match_version vendor [''1.8.0''] ''8'' = Inl (LookupError (no_match_msg vendor ''8''))"
    and "match_version vendor [''8.0''] ''1.8'' = Inl (LookupError (no_match_msg vendor ''1.8''))"
    and "match_version vendor [''1.8.0''] ''1.8'' = Inr ''1.8.0''"
    and "match_version vendor [''8.0''] ''8'' = Inr ''8.0''"
proof -
  have a: "normalize_version ''1.8.0'' False = Inr (map Num [1, 8, 0])"
    and b: "normalize_version ''8.0'' False = Inr (map Num [8, 0])"
    by (simp_all add: n180)
  have r: "normalize_version ''8'' False = Inr [Num 8]"
    "normalize_version ''1.8'' False = Inr [Num 1, Num 8]"
    by code_simp+
  have c: "is_version_compatible_with_spec (map Num [1, 8, 0]) [Num 8] = Inr False"
    "is_version_compatible_with_spec (map Num [8, 0]) [Num 1, Num 8] = Inr False"
    "is_version_compatible_with_spec (map Num [1, 8, 0]) [Num 1, Num 8] = Inr True"
    "is_version_compatible_with_spec (map Num [8, 0]) [Num 8] = Inr True"
    by (simp_all add: is_version_compatible_with_spec_def)
  have g: "tuple_gt (map Num [1, 8, 0]) [Num 8] = Inr False"
    "tuple_gt (map Num [8, 0]) [Num 1, Num 8] = Inr True"
    by simp_all
  have rp: "False = (\<not> is_graal vendor)" using assms by simp
  show "match_version vendor [''1.8.0''] ''8'' = Inl (LookupError (no_match_msg vendor ''8''))"
    "match_version vendor [''1.8.0''] ''1.8'' = Inr ''1.8.0''"
    unfolding match_single [OF a rp] by (simp_all only: r c g sum.case bool.case)
  show "match_version vendor [''8.0''] ''1.8'' = Inl (LookupError (no_match_msg vendor ''1.8''))"
    "match_version vendor [''8.0''] ''8'' = Inr ''8.0''"
    unfolding match_single [OF b rp] by (simp_all only: r c g sum.case bool.case)
qed

section \<open>The resolver\<close>

lemma set_vendor_version_pairs:
  "set (vendor_version_pairs jdks)
     = {(removeprefix ''jdk@'' v, ver) | v versions ver url.
          (v, versions) \<in> set jdks \<and> (ver, url) \<in> set versions}"
  by (auto simp: vendor_version_pairs_def) force

lemma length_vendor_version_pairs:
  "length (vendor_version_pairs jdks) = sum_list (map (\<lambda>(v, versions). length versions) jdks)"
  by (induction jdks) (auto simp: vendor_version_pairs_def)

lemma shifted_text_differs:
  assumes j: "j \<notin> set B" and B: "B \<noteq> []" and l: "last B \<noteq> a"
  shows "v @ (a # j # A) @ r1 \<noteq> B @ v @ r2"
proof (induction v arbitrary: r1 r2 rule: length_induct)
  case (1 v)
  show ?case
  proof
    assume eq: "v @ (a # j # A) @ r1 = B @ v @ r2"
    show False
    proof (cases "length B \<le> length v")
      case True
      from eq have "take (length B) (v @ (a # j # A) @ r1) = take (length B) (B @ v @ r2)"
        by (rule arg_cong)
      with True have "take (length B) v = B"
        by simp
      then obtain v' where v: "v = B @ v'"
        by (metis append_take_drop_id)
      with eq have "v' @ (a # j # A) @ r1 = B @ v' @ r2"
        by simp
      moreover have "length v' < length v"
        using v B by simp
      ultimately show False
        using "1.IH" by blast
    next
      case False
      then have short: "length v < length B" by simp
      from eq have "take (length v) (v @ (a # j # A) @ r1) = take (length v) (B @ v @ r2)"
        by (rule arg_cong)
      with short have "v = take (length v) B"
        by simp
      then obtain u where Bu: "B = v @ u"
        by (metis append_take_drop_id)
      with short have "u \<noteq> []" by auto
      from eq have "v @ (a # j # A) @ r1 = v @ u @ v @ r2"
        by (subst (asm) Bu) simp
      then have tail: "(a # j # A) @ r1 = u @ v @ r2"
        by simp
      show False
      proof (cases u)
        case Nil
        with \<open>u \<noteq> []\<close> show ?thesis by simp
      next
        case (Cons a' u')
        show ?thesis
        proof (cases u')
          case Nil
          with Cons tail have "a' = a" by simp
          moreover have "last B = a'"
            by (subst Bu) (simp add: Cons Nil)
          ultimately show ?thesis using l by simp
        next
          case (Cons b u'')
          with \<open>u = a' # u'\<close> tail have "b = j" by simp
          then have "j \<in> set u"
            using Cons \<open>u = a' # u'\<close> by simp
          then have "j \<in> set B"
            by (subst Bu) simp
          with j show ?thesis by blast
        qed
      qed
    qed
  qed
qed

lemma messages_differ: "no_jdk_msg conf \<noteq> no_match_msg (conf_vendor conf) requested"
proof -
  have "conf_vendor conf @ (CHR '' '' # CHR ''J'' # ''DK is available for'' @ '' '')
          @ (conf_os conf @ ''-'' @ conf_arch conf)
        \<noteq> (''matching version for '' @ [CHR 0x27]) @ conf_vendor conf
            @ ('':'' @ requested @ [CHR 0x27])"
    by (rule shifted_text_differs) simp_all
  then show ?thesis
    by (simp add: no_jdk_msg_def no_match_msg_def)
qed

section \<open>The Java home\<close>

lemma lookup_append:
  "lookup fs (p @ q) = (case lookup fs p of None \<Rightarrow> None | Some t \<Rightarrow> lookup t q)"
proof (induction p arbitrary: fs)
  case Nil
  show ?case by simp
next
  case (Cons n p)
  show ?case
    by (cases fs) (simp_all add: Cons.IH split: option.splits)
qed

lemma looks_like_java_home_iff: "looks_like_java_home fs p = is_java_home fs p"
proof -
  have two: "p @ [''bin'', n] = (p @ [''bin'']) @ [n]" for n
    by simp
  show ?thesis
    unfolding looks_like_java_home_def is_java_home_def is_dir_def is_file_def two
    by (subst (2 3) lookup_append)
      (auto simp: is_regular_file_def split: option.splits tree.splits)
qed

lemma is_dir_child:
  assumes "lookup fs p = Some (Dir es)"
  shows "is_dir fs (p @ [n]) \<longleftrightarrow> (\<exists>es'. map_of es n = Some (Dir es'))"
  using assms by (auto simp: is_dir_def lookup_append split: option.splits tree.splits)

lemma is_dir_child_listed:
  assumes "lookup fs p = Some (Dir es)" and "is_dir fs (p @ [n])"
  shows "n \<in> set (map fst es)"
  using assms by (auto simp: is_dir_child dest: map_of_SomeD intro: rev_image_eqI)

lemma is_dir_parent:
  assumes "is_dir fs (p @ [n])"
  shows "is_dir fs p"
  using assms by (auto simp: is_dir_def lookup_append split: option.splits tree.splits)

lemma filter_single:
  assumes "distinct xs"
  shows "length (filter P xs) = 1 \<longleftrightarrow> (\<exists>x. x \<in> set xs \<and> P x \<and> (\<forall>y. y \<in> set xs \<and> P y \<longrightarrow> y = x))"
proof
  assume "length (filter P xs) = 1"
  then obtain x where x: "filter P xs = [x]"
    by (cases "filter P xs") auto
  then have "set (filter P xs) = {x}" by simp
  then show "\<exists>x. x \<in> set xs \<and> P x \<and> (\<forall>y. y \<in> set xs \<and> P y \<longrightarrow> y = x)"
    by auto
next
  assume "\<exists>x. x \<in> set xs \<and> P x \<and> (\<forall>y. y \<in> set xs \<and> P y \<longrightarrow> y = x)"
  then obtain x where "set (filter P xs) = {x}" by auto
  moreover have "distinct (filter P xs)" using assms by simp
  ultimately show "length (filter P xs) = 1"
    by (metis One_nat_def card.empty card.insert distinct_card empty_iff finite.emptyI)
qed

lemma only_subdir_unique: "only_subdir fs p n \<Longrightarrow> only_subdir fs p n' \<Longrightarrow> n' = n"
  unfolding only_subdir_def by blast

lemma contains_single_subdir_cases:
  assumes "is_dir fs p"
  shows "only_subdir fs p n \<Longrightarrow> contains_single_subdir fs p = Inr (Some (p @ [n]))"
    and "\<not> (\<exists>n. only_subdir fs p n) \<Longrightarrow> contains_single_subdir fs p = Inr None"
proof -
  from assms obtain es where es: "lookup fs p = Some (Dir es)"
    by (auto simp: is_dir_def split: option.splits tree.splits)
  let ?names = "remdups (map fst es)"
  let ?sub = "filter (\<lambda>n. is_dir fs (p @ [n])) ?names"
  have items: "filter (is_dir fs) (map (\<lambda>n. p @ [n]) ?names) = map (\<lambda>n. p @ [n]) ?sub"
    by (simp add: filter_map comp_def)
  have res: "contains_single_subdir fs p
      = (if length ?sub = 1 then Inr (Some (p @ [hd ?sub])) else Inr None)"
    by (cases ?sub) (simp_all add: contains_single_subdir_def iterdir_def es items Let_def)
  have one: "length ?sub = 1 \<longleftrightarrow> (\<exists>x. x \<in> set ?names \<and> is_dir fs (p @ [x])
        \<and> (\<forall>y. y \<in> set ?names \<and> is_dir fs (p @ [y]) \<longrightarrow> y = x))"
    by (rule filter_single) simp
  have listed: "m \<in> set ?names" if "is_dir fs (p @ [m])" for m
    using is_dir_child_listed [OF es that] by simp
  {
    assume n: "only_subdir fs p n"
    then have d: "is_dir fs (p @ [n])" and u: "\<And>m. is_dir fs (p @ [m]) \<Longrightarrow> m = n"
      unfolding only_subdir_def by blast+
    have "n \<in> set ?names \<and> is_dir fs (p @ [n])
        \<and> (\<forall>y. y \<in> set ?names \<and> is_dir fs (p @ [y]) \<longrightarrow> y = n)"
      using d u listed by blast
    then have len: "length ?sub = 1"
      unfolding one by (rule exI)
    then obtain x where x: "?sub = [x]"
      by (cases ?sub) auto
    then have "x \<in> set ?sub" by simp
    then have "is_dir fs (p @ [x])" by simp
    then have "x = n" by (rule u)
    with x have "hd ?sub = n" by simp
    with len show "contains_single_subdir fs p = Inr (Some (p @ [n]))"
      unfolding res by simp
  }
  {
    assume none: "\<not> (\<exists>n. only_subdir fs p n)"
    have "length ?sub \<noteq> 1"
    proof
      assume "length ?sub = 1"
      then obtain x where "is_dir fs (p @ [x])"
        and "\<forall>y. y \<in> set ?names \<and> is_dir fs (p @ [y]) \<longrightarrow> y = x"
        unfolding one by blast
      then have "only_subdir fs p x"
        unfolding only_subdir_def using listed by blast
      with none show False by blast
    qed
    then show "contains_single_subdir fs p = Inr None"
      unfolding res by simp
  }
qed

lemma find_home_unfold:
  "find_home fs p d =
     (if is_java_home fs p then Inr p
      else if is_java_home fs (p @ macos_extra) then Inr (p @ macos_extra)
      else if d > 0 then
        (case contains_single_subdir fs p of
           Inl e \<Rightarrow> Inl e
         | Inr None \<Rightarrow> Inl (RuntimeError p)
         | Inr (Some subdir) \<Rightarrow> find_home fs subdir (d - 1))
      else Inl (RuntimeError p))"
  by (subst find_home.simps) (simp only: looks_like_java_home_iff)

lemma only_subdir_is_dir: "only_subdir fs p n \<Longrightarrow> is_dir fs (p @ [n])"
  by (simp add: only_subdir_def)

lemma find_home_complete:
  assumes "find_home_spec fs p d r" and "is_dir fs p"
  shows "find_home fs p d = r"
  using assms
proof (induction rule: find_home_spec.induct)
  case (IsHome fs p budget)
  then show ?case
    by (subst find_home_unfold) simp
next
  case (MacBundle fs p budget)
  then show ?case
    by (subst find_home_unfold) simp
next
  case (SingleChildDescend fs p budget n r)
  have c: "contains_single_subdir fs p = Inr (Some (p @ [n]))"
    using SingleChildDescend.prems SingleChildDescend.hyps(4)
    by (rule contains_single_subdir_cases(1))
  have "is_dir fs (p @ [n])"
    using SingleChildDescend.hyps(4) by (rule only_subdir_is_dir)
  then have "find_home fs (p @ [n]) (budget - 1) = r"
    by (rule SingleChildDescend.IH)
  moreover have "find_home fs p budget = find_home fs (p @ [n]) (budget - 1)"
    using SingleChildDescend.hyps(1,2,3) c by (subst find_home_unfold) simp
  ultimately show ?case by simp
next
  case (Failure fs p budget)
  show ?case
  proof (cases "budget \<le> 0")
    case True
    with Failure.hyps(1,2) show ?thesis
      by (subst find_home_unfold) simp
  next
    case False
    with Failure.hyps(3) have "\<not> (\<exists>n. only_subdir fs p n)"
      by simp
    with Failure.prems have "contains_single_subdir fs p = Inr None"
      by (rule contains_single_subdir_cases(2))
    with Failure.hyps(1,2) show ?thesis
      by (subst find_home_unfold) simp
  qed
qed

lemma find_home_spec_total:
  assumes "is_dir fs p"
  shows "\<exists>r. find_home_spec fs p d r"
  using assms
proof (induction "nat d" arbitrary: p d)
  case 0
  then have d: "d \<le> 0" by simp
  consider (home) "is_java_home fs p"
    | (mac) "\<not> is_java_home fs p" "is_java_home fs (p @ macos_extra)"
    | (neither) "\<not> is_java_home fs p" "\<not> is_java_home fs (p @ macos_extra)"
    by blast
  then show ?case
  proof cases
    case home
    then have "find_home_spec fs p d (Inr p)" by (rule IsHome)
    then show ?thesis ..
  next
    case mac
    then have "find_home_spec fs p d (Inr (p @ macos_extra))" by (rule MacBundle)
    then show ?thesis ..
  next
    case neither
    then have "find_home_spec fs p d (Inl (RuntimeError p))"
      using d by (intro Failure) simp_all
    then show ?thesis ..
  qed
next
  case (Suc k)
  then have d: "d > 0" and k: "k = nat (d - 1)" by simp_all
  consider (home) "is_java_home fs p"
    | (mac) "\<not> is_java_home fs p" "is_java_home fs (p @ macos_extra)"
    | (descend) n where "\<not> is_java_home fs p" "\<not> is_java_home fs (p @ macos_extra)"
        "only_subdir fs p n"
    | (fail) "\<not> is_java_home fs p" "\<not> is_java_home fs (p @ macos_extra)"
        "\<not> (\<exists>n. only_subdir fs p n)"
    by blast
  then show ?case
  proof cases
    case home
    then have "find_home_spec fs p d (Inr p)" by (rule IsHome)
    then show ?thesis ..
  next
    case mac
    then have "find_home_spec fs p d (Inr (p @ macos_extra))" by (rule MacBundle)
    then show ?thesis ..
  next
    case descend
    have "is_dir fs (p @ [n])"
      using descend(3) by (rule only_subdir_is_dir)
    with Suc.hyps(1) [OF k] obtain r where r: "find_home_spec fs (p @ [n]) (d - 1) r"
      by blast
    have "find_home_spec fs p d r"
      using descend(1,2) d descend(3) r by (rule SingleChildDescend)
    then show ?thesis ..
  next
    case fail
    then have "find_home_spec fs p d (Inl (RuntimeError p))"
      by (intro Failure) simp_all
    then show ?thesis ..
  qed
qed

lemma find_home_refines:
  assumes "is_dir fs p"
  shows "find_home_spec fs p d r \<longleftrightarrow> find_home fs p d = r"
proof
  assume "find_home_spec fs p d r"
  then show "find_home fs p d = r"
    using assms by (rule find_home_complete)
next
  assume r: "find_home fs p d = r"
  from find_home_spec_total [OF assms] obtain r' where r': "find_home_spec fs p d r'"
    by blast
  then have "find_home fs p d = r'"
    using assms by (rule find_home_complete)
  with r r' show "find_home_spec fs p d r" by simp
qed

section \<open>Writing the index\<close>

lemma sorted_keys_unique:
  assumes "distinct (map fst xs)" and "distinct (map fst ys)"
    and "set (map fst xs) = set (map fst ys)"
  shows "map fst (sort_key fst xs) = map fst (sort_key fst ys)"
proof (rule sorted_distinct_set_unique)
  show "sorted (map fst (sort_key fst xs))" "sorted (map fst (sort_key fst ys))"
    by (rule sorted_sort_key)+
  show "distinct (map fst (sort_key fst xs))"
    using assms(1) by (simp add: distinct_map)
  show "distinct (map fst (sort_key fst ys))"
    using assms(2) by (simp add: distinct_map)
  show "set (map fst (sort_key fst xs)) = set (map fst (sort_key fst ys))"
    using assms(3) by simp
qed

lemma map_items_by_key:
  assumes "distinct (map fst xs)"
  shows "map (\<lambda>kv. f (fst kv) (snd kv)) (sort_key fst xs)
           = map (\<lambda>k. f k (the (map_of xs k))) (map fst (sort_key fst xs))"
proof -
  have "f (fst kv) (snd kv) = f (fst kv) (the (map_of xs (fst kv)))"
    if "kv \<in> set (sort_key fst xs)" for kv
  proof -
    from that have "(fst kv, snd kv) \<in> set xs" by simp
    with assms have "map_of xs (fst kv) = Some (snd kv)"
      by (rule map_of_is_SomeI)
    then show ?thesis by simp
  qed
  then show ?thesis
    by (simp add: comp_def cong: map_cong)
qed

lemma sorted_items_eq:
  assumes dx: "distinct (map fst xs)" and dy: "distinct (map fst ys)"
    and keys: "set (map fst xs) = set (map fst ys)"
    and vals: "\<And>k v w. map_of xs k = Some v \<Longrightarrow> map_of ys k = Some w \<Longrightarrow> f k v = f k w"
  shows "map (\<lambda>kv. f (fst kv) (snd kv)) (sort_key fst xs)
           = map (\<lambda>kv. f (fst kv) (snd kv)) (sort_key fst ys)"
proof -
  have same: "f k (the (map_of xs k)) = f k (the (map_of ys k))"
    if "k \<in> set (map fst (sort_key fst xs))" for k
  proof -
    from that have kx: "k \<in> fst ` set xs" by simp
    with keys have ky: "k \<in> fst ` set ys" by simp
    from kx obtain v where v: "map_of xs k = Some v"
      by (metis domD dom_map_of_conv_image_fst)
    from ky obtain w where w: "map_of ys k = Some w"
      by (metis domD dom_map_of_conv_image_fst)
    from vals [OF v w] v w show ?thesis by simp
  qed
  have "map (\<lambda>kv. f (fst kv) (snd kv)) (sort_key fst xs)
      = map (\<lambda>k. f k (the (map_of xs k))) (map fst (sort_key fst xs))"
    using dx by (rule map_items_by_key)
  also have "\<dots> = map (\<lambda>k. f k (the (map_of ys k))) (map fst (sort_key fst xs))"
    using same by (rule map_cong [OF refl])
  also have "\<dots> = map (\<lambda>k. f k (the (map_of ys k))) (map fst (sort_key fst ys))"
    using sorted_keys_unique [OF dx dy keys] by simp
  also have "\<dots> = map (\<lambda>kv. f (fst kv) (snd kv)) (sort_key fst ys)"
    using dy by (rule map_items_by_key [symmetric])
  finally show ?thesis .
qed

lemma json_dump_equal:
  assumes "json_equal a b" and "keys_distinct a" and "keys_distinct b"
  shows "json_dump level a = json_dump level b"
  using assms
proof (induction arbitrary: level rule: json_equal.induct)
  case (eq_arr xs ys)
  have "map (json_dump (level + 1)) xs = map (json_dump (level + 1)) ys"
    using eq_arr.IH eq_arr.prems
  proof (induction xs ys rule: list_all2_induct)
    case Nil
    show ?case by simp
  next
    case (Cons x xs y ys)
    then show ?case by simp
  qed
  moreover have "xs = [] \<longleftrightarrow> ys = []"
    using eq_arr.IH by auto
  ultimately show ?case by simp
next
  case (eq_obj xs ys)
  have dx: "distinct (map fst xs)" and dy: "distinct (map fst ys)"
    using eq_obj.prems by simp_all
  have vals: "encode_str k @ '': '' @ json_dump (level + 1) v
      = encode_str k @ '': '' @ json_dump (level + 1) w"
    if v: "map_of xs k = Some v" and w: "map_of ys k = Some w" for k v w
  proof -
    have "(k, v) \<in> set xs" "(k, w) \<in> set ys"
      using v w by (auto dest: map_of_SomeD)
    then have "keys_distinct v" "keys_distinct w"
      using eq_obj.prems by auto
    with eq_obj.IH [OF v w] show ?thesis by simp
  qed
  have "map (\<lambda>kv. encode_str (fst kv) @ '': '' @ json_dump (level + 1) (snd kv)) (sort_key fst xs)
      = map (\<lambda>kv. encode_str (fst kv) @ '': '' @ json_dump (level + 1) (snd kv)) (sort_key fst ys)"
    using dx dy eq_obj.hyps(1) vals
    by (rule sorted_items_eq [where f = "\<lambda>k v. encode_str k @ '': '' @ json_dump (level + 1) v"])
  moreover have "xs = [] \<longleftrightarrow> ys = []"
    using eq_obj.hyps(1) by (metis list.map_disc_iff set_empty)
  ultimately show ?case by simp
qed simp_all

section \<open>The claims\<close>

text \<open>
  Claim C2. For a candidate key of integers: against a spec without the marker the test
  holds exactly when the candidate has at least as many components as the spec and its
  leading components are the spec's; against the bare marker it always holds; against a
  spec of integers followed by the marker it holds exactly when the candidate has at least
  as many components as the spec has integers, agrees with all of them but the last, and
  at the position of the last is greater than or equal to it. So \<^verbatim>\<open>"11"\<close> matches
  \<^verbatim>\<open>"11.0.1"\<close>, and \<^verbatim>\<open>"11.0"\<close> does not match the candidate \<^verbatim>\<open>"11"\<close>.
\<close>

theorem compatible_with_spec_cases:
  "is_version_compatible_with_spec (map Num vs) (map Num ss)
     = Inr (length ss \<le> length vs \<and> take (length ss) vs = ss)
   \<and> is_version_compatible_with_spec (map Num vs) [Plus] = Inr True
   \<and> (ss \<noteq> [] \<longrightarrow>
        is_version_compatible_with_spec (map Num vs) (map Num ss @ [Plus])
          = Inr (length ss \<le> length vs \<and> take (length ss - 1) vs = butlast ss
                 \<and> last ss \<le> vs ! (length ss - 1)))
   \<and> is_version_compatible_with_spec [Num 11, Num 0, Num 1] [Num 11] = Inr True
   \<and> is_version_compatible_with_spec [Num 11] [Num 11, Num 0] = Inr False"
proof -
  have plain: "is_version_compatible_with_spec (map Num vs) (map Num ss)
     = Inr (length ss \<le> length vs \<and> take (length ss) vs = ss)"
    by (cases "ss = []") (simp_all add: is_version_compatible_with_spec_def take_map_Num_eq)
  have plus: "is_version_compatible_with_spec (map Num vs) (map Num ss @ [Plus])
          = Inr (length ss \<le> length vs \<and> take (length ss - 1) vs = butlast ss
                 \<and> last ss \<le> vs ! (length ss - 1))" if "ss \<noteq> []"
  proof -
    from that obtain p l where ss: "ss = p @ [l]"
      by (cases ss rule: rev_cases) auto
    show ?thesis
      unfolding ss using compatible_plus [of vs p l] by (simp add: Suc_le_eq)
  qed
  have ex: "is_version_compatible_with_spec [Num 11, Num 0, Num 1] [Num 11] = Inr True"
    "is_version_compatible_with_spec [Num 11] [Num 11, Num 0] = Inr False"
    by (simp_all add: is_version_compatible_with_spec_def)
  from plain plus ex show ?thesis
    by (simp add: compatible_bare_plus)
qed

theorem compatible_with_spec_cases_witness:
  "[11, 0] \<noteq> ([] :: int list)
   \<and> is_version_compatible_with_spec (map Num [11, 2, 0]) (map Num [11, 0] @ [Plus]) = Inr True
   \<and> is_version_compatible_with_spec (map Num [10, 9, 9]) (map Num [11, 0] @ [Plus]) = Inr False"
  using compatible_with_spec_cases [of "[11, 2, 0]" "[11, 0]"]
    compatible_with_spec_cases [of "[10, 9, 9]" "[11, 0]"]
  by simp

text \<open>
  Where no candidate that normalizes carries the plus marker, the early stop loses
  nothing. Take any vendor, any request that normalizes, and any such list of candidates.
  Then the scan with the early stop returns what a full scan returns. If no candidate is
  compatible with the request, the result is \<^verbatim>\<open>LookupError\<close>. Otherwise the result is
  the original string of a compatible candidate whose key no compatible candidate exceeds
  (in Python's order on tuples); among candidates with that key it is the one listed last.
\<close>

theorem match_version_newest_compatible:
  assumes req: "normalize_version requested (\<not> is_graal vendor) = Inr normreq"
    and cands: "\<forall>c\<in>set candidates. \<forall>k. normalize_version c (\<not> is_graal vendor) = Inr k
                  \<longrightarrow> Plus \<notin> set k"
  shows "match_version vendor candidates requested
           = match_version_full_scan vendor candidates requested
       \<and> (if compatible_candidates (\<not> is_graal vendor) normreq candidates = []
          then match_version vendor candidates requested
                 = Inl (LookupError (no_match_msg vendor requested))
          else \<exists>c k. match_version vendor candidates requested = Inr c
                 \<and> c \<in> set (compatible_candidates (\<not> is_graal vendor) normreq candidates)
                 \<and> normalize_version c (\<not> is_graal vendor) = Inr k
                 \<and> c = last (filter (\<lambda>c'. normalize_version c' (\<not> is_graal vendor) = Inr k) candidates)
                 \<and> (\<forall>c'\<in>set (compatible_candidates (\<not> is_graal vendor) normreq candidates).
                      \<forall>k'. normalize_version c' (\<not> is_graal vendor) = Inr k'
                        \<longrightarrow> tuple_gt k' k = Inr False))"
proof -
  let ?rp = "\<not> is_graal vendor"
  have scans: "match_version vendor candidates requested
                 = match_version_full_scan vendor candidates requested"
    using match_version_main [OF req cands] by (rule conjunct1)
  have result: "if compatible_candidates ?rp normreq candidates = []
          then match_version vendor candidates requested
                 = Inl (LookupError (no_match_msg vendor requested))
          else \<exists>c k. match_version vendor candidates requested = Inr c
                 \<and> c \<in> set (compatible_candidates ?rp normreq candidates)
                 \<and> normalize_version c ?rp = Inr k
                 \<and> c = last (filter (\<lambda>c'. normalize_version c' ?rp = Inr k) candidates)
                 \<and> (\<forall>c'\<in>set (compatible_candidates ?rp normreq candidates).
                      \<forall>k'. normalize_version c' ?rp = Inr k' \<longrightarrow> tuple_gt k' k = Inr False)"
    using match_version_main [OF req cands] by (rule conjunct2)
  from scans result show ?thesis ..
qed

theorem match_version_newest_compatible_witness:
  "normalize_version ''11'' (\<not> is_graal ''adoptium'') = Inr [Num 11]
   \<and> normalize_version ''11.0.1'' (\<not> is_graal ''adoptium'') = Inr [Num 11, Num 0, Num 1]
   \<and> normalize_version ''11.0.9'' (\<not> is_graal ''adoptium'') = Inr [Num 11, Num 0, Num 9]
   \<and> normalize_version ''11.0.10'' (\<not> is_graal ''adoptium'') = Inr [Num 11, Num 0, Num 10]
   \<and> match_version ''adoptium'' [''11.0.1'', ''11.0.9'', ''11.0.10''] ''11''
       = match_version_full_scan ''adoptium'' [''11.0.1'', ''11.0.9'', ''11.0.10''] ''11''
   \<and> match_version ''adoptium'' [''11.0.1'', ''11.0.9'', ''11.0.10''] ''11'' = Inr ''11.0.10''"
proof -
  have n: "normalize_version ''11.0.1'' (\<not> is_graal ''adoptium'') = Inr [Num 11, Num 0, Num 1]"
    "normalize_version ''11.0.9'' (\<not> is_graal ''adoptium'') = Inr [Num 11, Num 0, Num 9]"
    "normalize_version ''11.0.10'' (\<not> is_graal ''adoptium'') = Inr [Num 11, Num 0, Num 10]"
    by code_simp+
  have h1: "normalize_version ''11'' (\<not> is_graal ''adoptium'') = Inr [Num 11]"
    by code_simp
  have h2: "\<forall>c\<in>set [''11.0.1'', ''11.0.9'', ''11.0.10''].
        \<forall>k. normalize_version c (\<not> is_graal ''adoptium'') = Inr k \<longrightarrow> Plus \<notin> set k"
    using n by auto
  have r: "match_version ''adoptium'' [''11.0.1'', ''11.0.9'', ''11.0.10''] ''11'' = Inr ''11.0.10''"
    by code_simp
  from match_version_newest_compatible [OF h1 h2]
  have "match_version ''adoptium'' [''11.0.1'', ''11.0.9'', ''11.0.10''] ''11''
       = match_version_full_scan ''adoptium'' [''11.0.1'', ''11.0.9'', ''11.0.10''] ''11''"
    by (rule conjunct1)
  with h1 n r show ?thesis by blast
qed

text \<open>
  Claim C1, at the candidates \<^verbatim>\<open>["12+", "11.0.1"]\<close> and the request \<^verbatim>\<open>"11"\<close>: the
  candidate \<^verbatim>\<open>"11.0.1"\<close> normalizes and is compatible with the request, but the matcher
  does not return it. The candidate \<^verbatim>\<open>"12+"\<close> normalizes to a key with the marker, that
  key sorts first, and the compatibility test raises \<^verbatim>\<open>AssertionError\<close> on it.
\<close>

theorem match_version_marked_candidate_hides_match:
  "normalize_version ''11'' (\<not> is_graal ''adoptium'') = Inr [Num 11]
   \<and> normalize_version ''11.0.1'' (\<not> is_graal ''adoptium'') = Inr [Num 11, Num 0, Num 1]
   \<and> normalize_version ''12+'' (\<not> is_graal ''adoptium'') = Inr [Num 12, Plus]
   \<and> is_version_compatible_with_spec [Num 11, Num 0, Num 1] [Num 11] = Inr True
   \<and> match_version ''adoptium'' [''12+'', ''11.0.1''] ''11'' = Inl AssertionError
   \<and> match_version ''adoptium'' [''11.0.1''] ''11'' = Inr ''11.0.1''"
  by code_simp

text \<open>
  Claim C3. A vendor is a GraalVM vendor exactly when its lower-cased name contains
  \<^verbatim>\<open>graalvm\<close>. Whatever the matcher returns is a candidate whose key is compatible
  with the key of the request, both normalized with the flag that is on exactly for the
  vendors that are not GraalVM vendors; and a single candidate with a key of integers is
  returned exactly when its key, so normalized, is compatible with the request, so
  normalized. For a vendor that is not a GraalVM vendor the flag removes a leading
  component equal to 1: \<^verbatim>\<open>"1.8.0"\<close> and \<^verbatim>\<open>"8.0"\<close> have the key (8, 0), the request
  \<^verbatim>\<open>"8"\<close> matches the candidate \<^verbatim>\<open>"1.8.0"\<close>, the request \<^verbatim>\<open>"1.8"\<close> matches the candidate
  \<^verbatim>\<open>"8.0"\<close>, and the two candidates succeed and fail on the same requests. For a GraalVM
  vendor the leading 1 is kept: the keys are (1, 8, 0) and (8, 0), the request \<^verbatim>\<open>"8"\<close>
  matches \<^verbatim>\<open>"8.0"\<close> but not \<^verbatim>\<open>"1.8.0"\<close>, and the request \<^verbatim>\<open>"1.8"\<close> matches
  \<^verbatim>\<open>"1.8.0"\<close> but not \<^verbatim>\<open>"8.0"\<close>.
\<close>

theorem remove_prefix_1_by_vendor:
  "(is_graal vendor \<longleftrightarrow> (\<exists>p s. lower vendor = p @ ''graalvm'' @ s))
   \<and> (match_version vendor candidates requested = Inr c \<longrightarrow>
        c \<in> set candidates
        \<and> (\<exists>normreq k. normalize_version requested (\<not> is_graal vendor) = Inr normreq
              \<and> normalize_version c (\<not> is_graal vendor) = Inr k
              \<and> is_version_compatible_with_spec k normreq = Inr True))
   \<and> (normalize_version c (\<not> is_graal vendor) = Inr (map Num v) \<longrightarrow>
        (match_version vendor [c] requested = Inr c)
          = (\<exists>normreq. normalize_version requested (\<not> is_graal vendor) = Inr normreq
               \<and> is_version_compatible_with_spec (map Num v) normreq = Inr True))
   \<and> (\<not> is_graal vendor \<longrightarrow>
      normalize_version ver (\<not> is_graal vendor)
        = (case normalize_version ver False of
             Inl e \<Rightarrow> Inl e
           | Inr k \<Rightarrow> Inr (if k \<noteq> [] \<and> hd k = Num 1 then tl k else k))
      \<and> normalize_version ''1.8.0'' (\<not> is_graal vendor) = Inr [Num 8, Num 0]
      \<and> normalize_version ''8.0'' (\<not> is_graal vendor) = Inr [Num 8, Num 0]
      \<and> match_version vendor [''1.8.0''] ''8'' = Inr ''1.8.0''
      \<and> match_version vendor [''8.0''] ''1.8'' = Inr ''8.0''
      \<and> (match_version vendor [''1.8.0''] requested = Inr ''1.8.0'')
          = (match_version vendor [''8.0''] requested = Inr ''8.0'')
      \<and> (match_version vendor [''1.8.0''] requested = Inl e)
          = (match_version vendor [''8.0''] requested = Inl e))
   \<and> (is_graal vendor \<longrightarrow>
      normalize_version ver (\<not> is_graal vendor) = normalize_version ver False
      \<and> normalize_version ''1.8.0'' (\<not> is_graal vendor) = Inr [Num 1, Num 8, Num 0]
      \<and> normalize_version ''8.0'' (\<not> is_graal vendor) = Inr [Num 8, Num 0]
      \<and> match_version vendor [''1.8.0''] ''8'' = Inl (LookupError (no_match_msg vendor ''8''))
      \<and> match_version vendor [''8.0''] ''8'' = Inr ''8.0''
      \<and> match_version vendor [''1.8.0''] ''1.8'' = Inr ''1.8.0''
      \<and> match_version vendor [''8.0''] ''1.8''
          = Inl (LookupError (no_match_msg vendor ''1.8'')))"
proof -
  have name: "is_graal vendor \<longleftrightarrow> (\<exists>p s. lower vendor = p @ ''graalvm'' @ s)"
    unfolding is_graal_def by (rule contains_iff)
  have sound: "match_version vendor candidates requested = Inr c \<longrightarrow>
        c \<in> set candidates
        \<and> (\<exists>normreq k. normalize_version requested (\<not> is_graal vendor) = Inr normreq
              \<and> normalize_version c (\<not> is_graal vendor) = Inr k
              \<and> is_version_compatible_with_spec k normreq = Inr True)"
    using match_version_returns by blast
  have single: "normalize_version c (\<not> is_graal vendor) = Inr (map Num v) \<longrightarrow>
        (match_version vendor [c] requested = Inr c)
          = (\<exists>normreq. normalize_version requested (\<not> is_graal vendor) = Inr normreq
               \<and> is_version_compatible_with_spec (map Num v) normreq = Inr True)"
  proof
    assume k: "normalize_version c (\<not> is_graal vendor) = Inr (map Num v)"
    show "(match_version vendor [c] requested = Inr c)
          = (\<exists>normreq. normalize_version requested (\<not> is_graal vendor) = Inr normreq
               \<and> is_version_compatible_with_spec (map Num v) normreq = Inr True)"
      unfolding match_single [OF k refl]
      by (auto split: sum.splits bool.splits)
  qed
  have std: "normalize_version ver (\<not> is_graal vendor)
        = (case normalize_version ver False of
             Inl e \<Rightarrow> Inl e
           | Inr k \<Rightarrow> Inr (if k \<noteq> [] \<and> hd k = Num 1 then tl k else k))
      \<and> normalize_version ''1.8.0'' (\<not> is_graal vendor) = Inr [Num 8, Num 0]
      \<and> normalize_version ''8.0'' (\<not> is_graal vendor) = Inr [Num 8, Num 0]
      \<and> match_version vendor [''1.8.0''] ''8'' = Inr ''1.8.0''
      \<and> match_version vendor [''8.0''] ''1.8'' = Inr ''8.0''
      \<and> (match_version vendor [''1.8.0''] requested = Inr ''1.8.0'')
          = (match_version vendor [''8.0''] requested = Inr ''8.0'')
      \<and> (match_version vendor [''1.8.0''] requested = Inl e)
          = (match_version vendor [''8.0''] requested = Inl e)" if "\<not> is_graal vendor"
    using that normalize_remove_prefix_1 [of ver] match_same_requests [OF that]
      match_examples_standard(1,2) [OF that]
    by (simp add: n180)
  have graal: "normalize_version ver (\<not> is_graal vendor) = normalize_version ver False
      \<and> normalize_version ''1.8.0'' (\<not> is_graal vendor) = Inr [Num 1, Num 8, Num 0]
      \<and> normalize_version ''8.0'' (\<not> is_graal vendor) = Inr [Num 8, Num 0]
      \<and> match_version vendor [''1.8.0''] ''8'' = Inl (LookupError (no_match_msg vendor ''8''))
      \<and> match_version vendor [''8.0''] ''8'' = Inr ''8.0''
      \<and> match_version vendor [''1.8.0''] ''1.8'' = Inr ''1.8.0''
      \<and> match_version vendor [''8.0''] ''1.8''
          = Inl (LookupError (no_match_msg vendor ''1.8''))" if "is_graal vendor"
    using that match_examples_graal [OF that]
    by (simp add: n180)
  from std have std': "\<not> is_graal vendor \<longrightarrow>
      normalize_version ver (\<not> is_graal vendor)
        = (case normalize_version ver False of
             Inl e \<Rightarrow> Inl e
           | Inr k \<Rightarrow> Inr (if k \<noteq> [] \<and> hd k = Num 1 then tl k else k))
      \<and> normalize_version ''1.8.0'' (\<not> is_graal vendor) = Inr [Num 8, Num 0]
      \<and> normalize_version ''8.0'' (\<not> is_graal vendor) = Inr [Num 8, Num 0]
      \<and> match_version vendor [''1.8.0''] ''8'' = Inr ''1.8.0''
      \<and> match_version vendor [''8.0''] ''1.8'' = Inr ''8.0''
      \<and> (match_version vendor [''1.8.0''] requested = Inr ''1.8.0'')
          = (match_version vendor [''8.0''] requested = Inr ''8.0'')
      \<and> (match_version vendor [''1.8.0''] requested = Inl e)
          = (match_version vendor [''8.0''] requested = Inl e)"
    by (rule impI)
  from graal have graal': "is_graal vendor \<longrightarrow>
      normalize_version ver (\<not> is_graal vendor) = normalize_version ver False
      \<and> normalize_version ''1.8.0'' (\<not> is_graal vendor) = Inr [Num 1, Num 8, Num 0]
      \<and> normalize_version ''8.0'' (\<not> is_graal vendor) = Inr [Num 8, Num 0]
      \<and> match_version vendor [''1.8.0''] ''8'' = Inl (LookupError (no_match_msg vendor ''8''))
      \<and> match_version vendor [''8.0''] ''8'' = Inr ''8.0''
      \<and> match_version vendor [''1.8.0''] ''1.8'' = Inr ''1.8.0''
      \<and> match_version vendor [''8.0''] ''1.8''
          = Inl (LookupError (no_match_msg vendor ''1.8''))"
    by (rule impI)
  show ?thesis
    by (rule conjI name sound single std' graal')+
qed

theorem remove_prefix_1_by_vendor_witness:
  "\<not> is_graal ''adoptium''
   \<and> match_version ''adoptium'' [''1.8.0''] ''8'' = Inr ''1.8.0''
   \<and> match_version ''adoptium'' [''8.0''] ''1.8'' = Inr ''8.0''
   \<and> normalize_version ''1.8.0'' (\<not> is_graal ''adoptium'') = Inr (map Num [8, 0])
   \<and> (\<exists>normreq k. normalize_version ''8'' (\<not> is_graal ''adoptium'') = Inr normreq
         \<and> normalize_version ''1.8.0'' (\<not> is_graal ''adoptium'') = Inr k
         \<and> is_version_compatible_with_spec k normreq = Inr True)
   \<and> is_graal ''GraalVM-java17''
   \<and> match_version ''GraalVM-java17'' [''1.8.0''] ''8''
       = Inl (LookupError (no_match_msg ''GraalVM-java17'' ''8''))
   \<and> match_version ''GraalVM-java17'' [''8.0''] ''8'' = Inr ''8.0''"
proof -
  have a: "\<not> is_graal ''adoptium''" and g: "is_graal ''GraalVM-java17''"
    by code_simp+
  note std = remove_prefix_1_by_vendor [of "''adoptium''", THEN conjunct2, THEN conjunct2,
      THEN conjunct2, THEN conjunct1, THEN mp, OF a]
  note graal = remove_prefix_1_by_vendor [of "''GraalVM-java17''", THEN conjunct2,
      THEN conjunct2, THEN conjunct2, THEN conjunct2, THEN mp, OF g]
  have m1: "match_version ''adoptium'' [''1.8.0''] ''8'' = Inr ''1.8.0''"
    by (rule std [THEN conjunct2, THEN conjunct2, THEN conjunct2, THEN conjunct1])
  have m2: "match_version ''adoptium'' [''8.0''] ''1.8'' = Inr ''8.0''"
    by (rule std [THEN conjunct2, THEN conjunct2, THEN conjunct2, THEN conjunct2,
          THEN conjunct1])
  have k: "normalize_version ''1.8.0'' (\<not> is_graal ''adoptium'') = Inr (map Num [8, 0])"
    using std [THEN conjunct2, THEN conjunct1] by simp
  have s: "\<exists>normreq k. normalize_version ''8'' (\<not> is_graal ''adoptium'') = Inr normreq
         \<and> normalize_version ''1.8.0'' (\<not> is_graal ''adoptium'') = Inr k
         \<and> is_version_compatible_with_spec k normreq = Inr True"
    by (rule remove_prefix_1_by_vendor [of "''adoptium''" "[''1.8.0'']" "''8''" "''1.8.0''",
          THEN conjunct2, THEN conjunct1, THEN mp, OF m1, THEN conjunct2])
  have g1: "match_version ''GraalVM-java17'' [''1.8.0''] ''8''
       = Inl (LookupError (no_match_msg ''GraalVM-java17'' ''8''))"
    by (rule graal [THEN conjunct2, THEN conjunct2, THEN conjunct2, THEN conjunct1])
  have g2: "match_version ''GraalVM-java17'' [''8.0''] ''8'' = Inr ''8.0''"
    by (rule graal [THEN conjunct2, THEN conjunct2, THEN conjunct2, THEN conjunct2,
          THEN conjunct1])
  show ?thesis
    by (rule conjI a m1 m2 k s g g1 g2)+
qed

text \<open>
  Where no candidate that normalizes carries the plus marker: the empty request
  normalizes to the empty key for every vendor; for a vendor that is not a GraalVM vendor,
  \<^verbatim>\<open>"1"\<close> normalizes to the empty key and \<^verbatim>\<open>"1+"\<close> to the bare marker. A request with
  either key is compatible with every candidate key of integers, and the matcher then
  returns a candidate whose key no candidate that normalizes exceeds. (If no candidate
  normalizes the result is \<^verbatim>\<open>LookupError\<close>.)
\<close>

theorem empty_request_newest:
  assumes req: "normalize_version requested (\<not> is_graal vendor) = Inr normreq"
    and any: "normreq = [] \<or> normreq = [Plus]"
    and cands: "\<forall>c\<in>set candidates. \<forall>k. normalize_version c (\<not> is_graal vendor) = Inr k
                  \<longrightarrow> Plus \<notin> set k"
  shows "normalize_version [] (\<not> is_graal vendor) = Inr []
       \<and> (\<not> is_graal vendor \<longrightarrow>
            normalize_version ''1'' (\<not> is_graal vendor) = Inr []
            \<and> normalize_version ''1+'' (\<not> is_graal vendor) = Inr [Plus])
       \<and> is_version_compatible_with_spec (map Num vs) normreq = Inr True
       \<and> (if \<exists>c\<in>set candidates. \<exists>k. normalize_version c (\<not> is_graal vendor) = Inr k
          then \<exists>c k. match_version vendor candidates requested = Inr c
                 \<and> c \<in> set candidates
                 \<and> normalize_version c (\<not> is_graal vendor) = Inr k
                 \<and> (\<forall>c'\<in>set candidates.
                      \<forall>k'. normalize_version c' (\<not> is_graal vendor) = Inr k'
                        \<longrightarrow> tuple_gt k' k = Inr False)
          else match_version vendor candidates requested
                 = Inl (LookupError (no_match_msg vendor requested)))"
proof -
  let ?rp = "\<not> is_graal vendor"
  let ?cc = "compatible_candidates ?rp normreq candidates"
  have cc: "c \<in> set ?cc \<longleftrightarrow> c \<in> set candidates \<and> (\<exists>k. normalize_version c ?rp = Inr k)" for c
    by (rule compatible_candidates_all [OF any cands])
  have main: "if ?cc = []
          then match_version vendor candidates requested
                 = Inl (LookupError (no_match_msg vendor requested))
          else \<exists>c k. match_version vendor candidates requested = Inr c
                 \<and> c \<in> set ?cc
                 \<and> normalize_version c ?rp = Inr k
                 \<and> c = last (filter (\<lambda>c'. normalize_version c' ?rp = Inr k) candidates)
                 \<and> (\<forall>c'\<in>set ?cc.
                      \<forall>k'. normalize_version c' ?rp = Inr k' \<longrightarrow> tuple_gt k' k = Inr False)"
    using match_version_main [OF req cands] by (rule conjunct2)
  have keys: "normalize_version [] ?rp = Inr []"
    "\<not> is_graal vendor \<longrightarrow>
       normalize_version ''1'' ?rp = Inr [] \<and> normalize_version ''1+'' ?rp = Inr [Plus]"
    by (simp_all add: normalize_empty normalize_1 normalize_1_plus)
  have compat: "is_version_compatible_with_spec (map Num vs) normreq = Inr True"
    using any by (auto simp: compatible_empty compatible_bare_plus)
  show ?thesis
  proof (cases "\<exists>c\<in>set candidates. \<exists>k. normalize_version c ?rp = Inr k")
    case True
    then have "?cc \<noteq> []"
      using cc by fastforce
    with main obtain c k where ck: "match_version vendor candidates requested = Inr c"
        "c \<in> set ?cc" "normalize_version c ?rp = Inr k"
        "\<forall>c'\<in>set ?cc. \<forall>k'. normalize_version c' ?rp = Inr k' \<longrightarrow> tuple_gt k' k = Inr False"
      by auto
    have "\<forall>c'\<in>set candidates. \<forall>k'. normalize_version c' ?rp = Inr k' \<longrightarrow> tuple_gt k' k = Inr False"
      using ck(4) cc by blast
    with ck(1,2,3) cc have "\<exists>c k. match_version vendor candidates requested = Inr c
                 \<and> c \<in> set candidates
                 \<and> normalize_version c ?rp = Inr k
                 \<and> (\<forall>c'\<in>set candidates.
                      \<forall>k'. normalize_version c' ?rp = Inr k' \<longrightarrow> tuple_gt k' k = Inr False)"
      by blast
    with True compat keys show ?thesis by simp
  next
    case False
    then have "?cc = []"
      using cc by (metis all_not_in_conv set_empty)
    with main False compat keys show ?thesis by simp
  qed
qed

theorem empty_request_newest_witness:
  "normalize_version ''1'' (\<not> is_graal ''adoptium'') = Inr []
   \<and> is_version_compatible_with_spec (map Num [17, 0, 2]) [] = Inr True
   \<and> match_version ''adoptium'' [''11.0.1'', ''17.0.2'', ''1.8.0''] ''1'' = Inr ''17.0.2''"
proof -
  have n: "normalize_version ''11.0.1'' (\<not> is_graal ''adoptium'') = Inr [Num 11, Num 0, Num 1]"
    "normalize_version ''17.0.2'' (\<not> is_graal ''adoptium'') = Inr [Num 17, Num 0, Num 2]"
    "normalize_version ''1.8.0'' (\<not> is_graal ''adoptium'') = Inr [Num 8, Num 0]"
    by code_simp+
  have h1: "normalize_version ''1'' (\<not> is_graal ''adoptium'') = Inr []"
    by code_simp
  have h2: "\<forall>c\<in>set [''11.0.1'', ''17.0.2'', ''1.8.0''].
        \<forall>k. normalize_version c (\<not> is_graal ''adoptium'') = Inr k \<longrightarrow> Plus \<notin> set k"
    using n by auto
  have r: "match_version ''adoptium'' [''11.0.1'', ''17.0.2'', ''1.8.0''] ''1'' = Inr ''17.0.2''"
    by code_simp
  from empty_request_newest [OF h1 _ h2, of "[17, 0, 2]"]
  have "is_version_compatible_with_spec (map Num [17, 0, 2]) [] = Inr True"
    by simp
  with h1 r show ?thesis by blast
qed

text \<open>
  Claim C9, at the candidates \<^verbatim>\<open>["12+", "11.0.1"]\<close>: the requests \<^verbatim>\<open>""\<close>, \<^verbatim>\<open>"1"\<close> and
  \<^verbatim>\<open>"1+"\<close> normalize to the empty key, the empty key and the bare marker, but the
  matcher does not return the newest candidate. The candidate \<^verbatim>\<open>"12+"\<close> normalizes to a
  key with the marker, and the compatibility test raises \<^verbatim>\<open>AssertionError\<close> on it
  whatever the request is.
\<close>

theorem empty_request_marked_candidate:
  "normalize_version [] (\<not> is_graal ''adoptium'') = Inr []
   \<and> normalize_version ''1'' (\<not> is_graal ''adoptium'') = Inr []
   \<and> normalize_version ''1+'' (\<not> is_graal ''adoptium'') = Inr [Plus]
   \<and> normalize_version ''12+'' (\<not> is_graal ''adoptium'') = Inr [Num 12, Plus]
   \<and> is_version_compatible_with_spec [Num 12, Plus] [] = Inl AssertionError
   \<and> is_version_compatible_with_spec [Num 12, Plus] [Plus] = Inl AssertionError
   \<and> match_version ''adoptium'' [''12+'', ''11.0.1''] [] = Inl AssertionError
   \<and> match_version ''adoptium'' [''12+'', ''11.0.1''] ''1'' = Inl AssertionError
   \<and> match_version ''adoptium'' [''12+'', ''11.0.1''] ''1+'' = Inl AssertionError
   \<and> match_version ''adoptium'' [''11.0.1''] [] = Inr ''11.0.1''"
  by code_simp

text \<open>
  Claim C10, at the candidate \<^verbatim>\<open>"11+"\<close>: normalization accepts it, its key carries the
  marker, and the compatibility test it reaches raises \<^verbatim>\<open>AssertionError\<close>, which the
  matcher passes on.
\<close>

theorem plus_candidate_reaches_assertion:
  "normalize_version ''11+'' (\<not> is_graal ''adoptium'') = Inr [Num 11, Plus]
   \<and> is_version_compatible_with_spec [Num 11, Plus] [Num 11] = Inl AssertionError
   \<and> match_version ''adoptium'' [''11+''] ''11'' = Inl AssertionError"
  by code_simp




text \<open>
  Claim C5, amended. Let \<open>versions\<close> be the versions that \<^verbatim>\<open>available_jdks\<close> lists for
  the requested vendor, none of them empty and none that normalizes carrying the plus
  marker. If there are none, \<^verbatim>\<open>resolve_jdk_version\<close> raises the \<^verbatim>\<open>KeyError\<close> that
  names vendor, operating system and architecture. If there are some and the requested
  version does not normalize, it raises the \<^verbatim>\<open>ValueError\<close> of the normalization,
  which is not a \<^verbatim>\<open>LookupError\<close>. If there are some and the request normalizes, it
  raises the \<^verbatim>\<open>LookupError\<close> that names vendor and requested version exactly when no
  version is compatible with the request, and returns a compatible version otherwise.
  Both \<^verbatim>\<open>KeyError\<close> and \<^verbatim>\<open>LookupError\<close> are instances of \<^verbatim>\<open>LookupError\<close>, and the
  two messages are never the same text.
\<close>

theorem resolve_jdk_version_cases:
  assumes vs: "versions = map snd (filter (\<lambda>i. fst i = conf_vendor conf) (available_jdks index conf))"
    and rp: "rp = (\<not> is_graal (conf_vendor conf))"
    and ok: "\<forall>c\<in>set versions. c \<noteq> [] \<and> (\<forall>k. normalize_version c rp = Inr k \<longrightarrow> Plus \<notin> set k)"
  shows "(versions = [] \<longrightarrow> resolve_jdk_version index conf = Inl (KeyError (no_jdk_msg conf)))
       \<and> (\<forall>e. versions \<noteq> [] \<and> normalize_version (conf_version conf) rp = Inl e
             \<longrightarrow> resolve_jdk_version index conf = Inl e \<and> \<not> is_LookupError e)
       \<and> (\<forall>normreq. versions \<noteq> [] \<and> normalize_version (conf_version conf) rp = Inr normreq
             \<longrightarrow> (if compatible_candidates rp normreq versions = []
                  then resolve_jdk_version index conf
                         = Inl (LookupError (no_match_msg (conf_vendor conf) (conf_version conf)))
                  else \<exists>c\<in>set (compatible_candidates rp normreq versions).
                         resolve_jdk_version index conf = Inr c))
       \<and> is_LookupError (KeyError (no_jdk_msg conf))
       \<and> is_LookupError (LookupError (no_match_msg (conf_vendor conf) (conf_version conf)))
       \<and> no_jdk_msg conf \<noteq> no_match_msg (conf_vendor conf) (conf_version conf)"
proof -
  let ?m = "match_version (conf_vendor conf) versions (conf_version conf)"
  have res: "resolve_jdk_version index conf =
      (if versions = [] then Inl (KeyError (no_jdk_msg conf))
       else (case ?m of
               Inl e \<Rightarrow> Inl e
             | Inr matched \<Rightarrow>
                 if matched = [] then Inl (KeyError (no_version_msg conf)) else Inr matched))"
    by (simp add: resolve_jdk_version_def Let_def vs)
  have none: "versions = [] \<longrightarrow> resolve_jdk_version index conf = Inl (KeyError (no_jdk_msg conf))"
    by (simp add: res)
  have bad: "resolve_jdk_version index conf = Inl e \<and> \<not> is_LookupError e"
    if "versions \<noteq> []" "normalize_version (conf_version conf) rp = Inl e" for e
  proof -
    from that(2) have "?m = Inl e"
      by (simp add: match_version_def Let_def rp)
    moreover from that(2) have "e = ValueError (''Invalid version string: '' @ version_body (conf_version conf))"
      by (rule normalize_fails_ValueError)
    ultimately show ?thesis
      using that(1) by (simp add: res)
  qed
  have good: "if compatible_candidates rp normreq versions = []
                  then resolve_jdk_version index conf
                         = Inl (LookupError (no_match_msg (conf_vendor conf) (conf_version conf)))
                  else \<exists>c\<in>set (compatible_candidates rp normreq versions).
                         resolve_jdk_version index conf = Inr c"
    if ne: "versions \<noteq> []" and req: "normalize_version (conf_version conf) rp = Inr normreq"
    for normreq
  proof -
    have cands: "\<forall>c\<in>set versions. \<forall>k. normalize_version c (\<not> is_graal (conf_vendor conf)) = Inr k
        \<longrightarrow> Plus \<notin> set k"
      using ok rp by blast
    have main: "if compatible_candidates rp normreq versions = []
          then ?m = Inl (LookupError (no_match_msg (conf_vendor conf) (conf_version conf)))
          else \<exists>c k. ?m = Inr c
                 \<and> c \<in> set (compatible_candidates rp normreq versions)
                 \<and> normalize_version c rp = Inr k
                 \<and> c = last (filter (\<lambda>c'. normalize_version c' rp = Inr k) versions)
                 \<and> (\<forall>c'\<in>set (compatible_candidates rp normreq versions).
                      \<forall>k'. normalize_version c' rp = Inr k' \<longrightarrow> tuple_gt k' k = Inr False)"
      using match_version_main [OF req [unfolded rp] cands] unfolding rp by (rule conjunct2)
    show ?thesis
    proof (cases "compatible_candidates rp normreq versions = []")
      case True
      with main ne show ?thesis by (simp add: res)
    next
      case False
      with main obtain c where c: "?m = Inr c" "c \<in> set (compatible_candidates rp normreq versions)"
        by auto
      then have "c \<in> set versions"
        by (simp add: compatible_candidates_def)
      with ok have "c \<noteq> []" by blast
      with c ne have "resolve_jdk_version index conf = Inr c"
        by (simp add: res)
      with c(2) False show ?thesis by auto
    qed
  qed
  have classes: "is_LookupError (KeyError (no_jdk_msg conf))"
    "is_LookupError (LookupError (no_match_msg (conf_vendor conf) (conf_version conf)))"
    by simp_all
  have msgs: "no_jdk_msg conf \<noteq> no_match_msg (conf_vendor conf) (conf_version conf)"
    by (rule messages_differ)
  from none bad good classes msgs show ?thesis
    by (intro conjI allI impI) blast+
qed

theorem resolve_jdk_version_cases_witness:
  "map snd (filter (\<lambda>i. fst i = ''adoptium'')
     (available_jdks
       [(''linux'', [(''amd64'',
         [(''jdk@adoptium'', [(''17.0.1'', ''u1''), (''11.0.10'', ''u2''), (''11.0.9'', ''u3'')]),
          (''jdk@zulu'', [(''8.0.1'', ''u4'')])])])]
       \<lparr>conf_os = ''linux'', conf_arch = ''amd64'', conf_vendor = ''adoptium'', conf_version = ''11'',
       conf_index_url = ''https://example.org/index.json'',
       conf_allow_insecure_for_testing = False\<rparr>))
     = [''11.0.10'', ''11.0.9'', ''17.0.1'']
   \<and> normalize_version ''11'' True = Inr [Num 11]
   \<and> normalize_version ''11.0.10'' True = Inr [Num 11, Num 0, Num 10]
   \<and> normalize_version ''11.0.9'' True = Inr [Num 11, Num 0, Num 9]
   \<and> normalize_version ''17.0.1'' True = Inr [Num 17, Num 0, Num 1]
   \<and> compatible_candidates True [Num 11] [''11.0.10'', ''11.0.9'', ''17.0.1'']
       = [''11.0.10'', ''11.0.9'']
   \<and> (\<exists>c\<in>set [''11.0.10'', ''11.0.9''].
         resolve_jdk_version
           [(''linux'', [(''amd64'',
         [(''jdk@adoptium'', [(''17.0.1'', ''u1''), (''11.0.10'', ''u2''), (''11.0.9'', ''u3'')]),
          (''jdk@zulu'', [(''8.0.1'', ''u4'')])])])]
           \<lparr>conf_os = ''linux'', conf_arch = ''amd64'', conf_vendor = ''adoptium'', conf_version = ''11'',
       conf_index_url = ''https://example.org/index.json'',
       conf_allow_insecure_for_testing = False\<rparr> = Inr c)
   \<and> normalize_version ''18'' True = Inr [Num 18]
   \<and> compatible_candidates True [Num 18] [''11.0.10'', ''11.0.9'', ''17.0.1''] = []
   \<and> resolve_jdk_version
       [(''linux'', [(''amd64'',
         [(''jdk@adoptium'', [(''17.0.1'', ''u1''), (''11.0.10'', ''u2''), (''11.0.9'', ''u3'')]),
          (''jdk@zulu'', [(''8.0.1'', ''u4'')])])])]
       \<lparr>conf_os = ''linux'', conf_arch = ''amd64'', conf_vendor = ''adoptium'', conf_version = ''18'',
       conf_index_url = ''https://example.org/index.json'',
       conf_allow_insecure_for_testing = False\<rparr>
       = Inl (LookupError (no_match_msg ''adoptium'' ''18''))
   \<and> resolve_jdk_version
       [(''linux'', [(''amd64'',
         [(''jdk@adoptium'', [(''17.0.1'', ''u1''), (''11.0.10'', ''u2''), (''11.0.9'', ''u3'')]),
          (''jdk@zulu'', [(''8.0.1'', ''u4'')])])])]
       \<lparr>conf_os = ''linux'', conf_arch = ''amd64'', conf_vendor = ''temurin'', conf_version = ''17'',
       conf_index_url = ''https://example.org/index.json'',
       conf_allow_insecure_for_testing = False\<rparr>
       = Inl (KeyError ''No temurin JDK is available for linux-amd64'')"
proof -
  let ?index = "[(''linux'', [(''amd64'',
         [(''jdk@adoptium'', [(''17.0.1'', ''u1''), (''11.0.10'', ''u2''), (''11.0.9'', ''u3'')]),
          (''jdk@zulu'', [(''8.0.1'', ''u4'')])])])]"
  let ?c11 = "\<lparr>conf_os = ''linux'', conf_arch = ''amd64'', conf_vendor = ''adoptium'', conf_version = ''11'',
       conf_index_url = ''https://example.org/index.json'',
       conf_allow_insecure_for_testing = False\<rparr>"
  let ?c18 = "\<lparr>conf_os = ''linux'', conf_arch = ''amd64'', conf_vendor = ''adoptium'', conf_version = ''18'',
       conf_index_url = ''https://example.org/index.json'',
       conf_allow_insecure_for_testing = False\<rparr>"
  let ?ct = "\<lparr>conf_os = ''linux'', conf_arch = ''amd64'', conf_vendor = ''temurin'', conf_version = ''17'',
       conf_index_url = ''https://example.org/index.json'',
       conf_allow_insecure_for_testing = False\<rparr>"
  let ?versions = "[''11.0.10'', ''11.0.9'', ''17.0.1'']"
  have n: "normalize_version ''11.0.10'' True = Inr [Num 11, Num 0, Num 10]"
    "normalize_version ''11.0.9'' True = Inr [Num 11, Num 0, Num 9]"
    "normalize_version ''17.0.1'' True = Inr [Num 17, Num 0, Num 1]"
    by code_simp+
  have r11: "normalize_version ''11'' True = Inr [Num 11]"
    and r18: "normalize_version ''18'' True = Inr [Num 18]"
    by code_simp+
  have ok: "\<forall>c\<in>set ?versions.
      c \<noteq> [] \<and> (\<forall>k. normalize_version c True = Inr k \<longrightarrow> Plus \<notin> set k)"
    using n by auto
  have cc11: "compatible_candidates True [Num 11] ?versions = [''11.0.10'', ''11.0.9'']"
    and cc18: "compatible_candidates True [Num 18] ?versions = []"
    by code_simp+
  have vs11: "?versions
      = map snd (filter (\<lambda>i. fst i = conf_vendor ?c11) (available_jdks ?index ?c11))"
    by code_simp
  have rp11: "True = (\<not> is_graal (conf_vendor ?c11))"
    by code_simp
  have v11: "map snd (filter (\<lambda>i. fst i = ''adoptium'') (available_jdks ?index ?c11)) = ?versions"
    by code_simp
  have ne: "?versions \<noteq> []"
    by simp
  have q11: "normalize_version (conf_version ?c11) True = Inr [Num 11]"
    using r11 by simp
  have "if compatible_candidates True [Num 11] ?versions = []
        then resolve_jdk_version ?index ?c11
               = Inl (LookupError (no_match_msg (conf_vendor ?c11) (conf_version ?c11)))
        else \<exists>c\<in>set (compatible_candidates True [Num 11] ?versions).
               resolve_jdk_version ?index ?c11 = Inr c"
    by (rule resolve_jdk_version_cases [OF vs11 rp11 ok, THEN conjunct2, THEN conjunct2,
          THEN conjunct1, THEN spec, THEN mp, OF conjI, OF ne q11])
  then have s11: "\<exists>c\<in>set [''11.0.10'', ''11.0.9'']. resolve_jdk_version ?index ?c11 = Inr c"
    unfolding cc11 by simp
  have vs18: "?versions
      = map snd (filter (\<lambda>i. fst i = conf_vendor ?c18) (available_jdks ?index ?c18))"
    by code_simp
  have rp18: "True = (\<not> is_graal (conf_vendor ?c18))"
    by code_simp
  have q18: "normalize_version (conf_version ?c18) True = Inr [Num 18]"
    using r18 by simp
  have "if compatible_candidates True [Num 18] ?versions = []
        then resolve_jdk_version ?index ?c18
               = Inl (LookupError (no_match_msg (conf_vendor ?c18) (conf_version ?c18)))
        else \<exists>c\<in>set (compatible_candidates True [Num 18] ?versions).
               resolve_jdk_version ?index ?c18 = Inr c"
    by (rule resolve_jdk_version_cases [OF vs18 rp18 ok, THEN conjunct2, THEN conjunct2,
          THEN conjunct1, THEN spec, THEN mp, OF conjI, OF ne q18])
  then have s18: "resolve_jdk_version ?index ?c18
       = Inl (LookupError (no_match_msg ''adoptium'' ''18''))"
    unfolding cc18 by simp
  have vst: "[] = map snd (filter (\<lambda>i. fst i = conf_vendor ?ct) (available_jdks ?index ?ct))"
    by code_simp
  have rpt: "True = (\<not> is_graal (conf_vendor ?ct))"
    by code_simp
  have okt: "\<forall>c\<in>set ([] :: string list).
      c \<noteq> [] \<and> (\<forall>k. normalize_version c True = Inr k \<longrightarrow> Plus \<notin> set k)"
    by simp
  have "resolve_jdk_version ?index ?ct = Inl (KeyError (no_jdk_msg ?ct))"
    using resolve_jdk_version_cases [OF vst rpt okt] by (rule conjunct1 [THEN mp]) simp
  moreover have "no_jdk_msg ?ct = ''No temurin JDK is available for linux-amd64''"
    by code_simp
  ultimately have st: "resolve_jdk_version ?index ?ct
       = Inl (KeyError ''No temurin JDK is available for linux-amd64'')"
    by simp
  show ?thesis
    by (rule conjI v11 r11 n cc11 s11 r18 cc18 s18 st)+
qed

theorem resolve_jdk_version_invalid_request_counterexample:
  "available_jdks
     [(''linux'', [(''amd64'',
         [(''jdk@adoptium'', [(''17.0.1'', ''u1''), (''11.0.10'', ''u2''), (''11.0.9'', ''u3'')]),
          (''jdk@zulu'', [(''8.0.1'', ''u4'')])])])]
     \<lparr>conf_os = ''linux'', conf_arch = ''amd64'', conf_vendor = ''adoptium'', conf_version = ''17-ea'',
       conf_index_url = ''https://example.org/index.json'',
       conf_allow_insecure_for_testing = False\<rparr>
     = [(''adoptium'', ''11.0.10''), (''adoptium'', ''11.0.9''), (''adoptium'', ''17.0.1''),
        (''zulu'', ''8.0.1'')]
   \<and> resolve_jdk_version
     [(''linux'', [(''amd64'',
         [(''jdk@adoptium'', [(''17.0.1'', ''u1''), (''11.0.10'', ''u2''), (''11.0.9'', ''u3'')]),
          (''jdk@zulu'', [(''8.0.1'', ''u4'')])])])]
     \<lparr>conf_os = ''linux'', conf_arch = ''amd64'', conf_vendor = ''adoptium'', conf_version = ''17-ea'',
       conf_index_url = ''https://example.org/index.json'',
       conf_allow_insecure_for_testing = False\<rparr>
     = Inl (ValueError ''Invalid version string: 17-ea'')
   \<and> \<not> is_LookupError (ValueError ''Invalid version string: 17-ea'')"
  by code_simp

text \<open>
  Claim C6. When the index has no entry for the operating system, or none for the
  architecture under it, \<^verbatim>\<open>available_jdks\<close> returns the empty list. Otherwise the result
  is sorted in the order of pairs of strings, its elements are exactly the pairs of a
  vendor key without its \<^verbatim>\<open>jdk@\<close> prefix and a version listed under that key, and it
  has one element for every version of every vendor key.
\<close>

theorem available_jdks_sorted_pairs:
  "(map_of index (conf_os conf) = None \<longrightarrow> available_jdks index conf = [])
   \<and> (\<forall>archs. map_of index (conf_os conf) = Some archs \<and> map_of archs (conf_arch conf) = None
         \<longrightarrow> available_jdks index conf = [])
   \<and> removeprefix ''jdk@'' (''jdk@'' @ name) = name
   \<and> (\<forall>archs jdks.
         map_of index (conf_os conf) = Some archs \<and> map_of archs (conf_arch conf) = Some jdks
         \<longrightarrow> sorted (available_jdks index conf)
             \<and> set (available_jdks index conf)
                 = {(removeprefix ''jdk@'' v, ver) | v versions ver url.
                      (v, versions) \<in> set jdks \<and> (ver, url) \<in> set versions}
             \<and> length (available_jdks index conf)
                 = sum_list (map (\<lambda>(v, versions). length versions) jdks))"
  by (simp add: available_jdks_def set_vendor_version_pairs length_vendor_version_pairs
      removeprefix_def)

theorem available_jdks_sorted_pairs_witness:
  "available_jdks
     [(''linux'', [(''amd64'',
         [(''jdk@adoptium'', [(''17.0.1'', ''u1''), (''11.0.10'', ''u2''), (''11.0.9'', ''u3'')]),
          (''jdk@zulu'', [(''8.0.1'', ''u4'')])])])]
     \<lparr>conf_os = ''linux'', conf_arch = ''amd64'', conf_vendor = ''adoptium'', conf_version = ''11'',
       conf_index_url = ''https://example.org/index.json'',
       conf_allow_insecure_for_testing = False\<rparr>
     = [(''adoptium'', ''11.0.10''), (''adoptium'', ''11.0.9''), (''adoptium'', ''17.0.1''),
        (''zulu'', ''8.0.1'')]
   \<and> sorted (available_jdks
     [(''linux'', [(''amd64'',
         [(''jdk@adoptium'', [(''17.0.1'', ''u1''), (''11.0.10'', ''u2''), (''11.0.9'', ''u3'')]),
          (''jdk@zulu'', [(''8.0.1'', ''u4'')])])])]
     \<lparr>conf_os = ''linux'', conf_arch = ''amd64'', conf_vendor = ''adoptium'', conf_version = ''11'',
       conf_index_url = ''https://example.org/index.json'',
       conf_allow_insecure_for_testing = False\<rparr>)
   \<and> available_jdks
     [(''linux'', [(''amd64'',
         [(''jdk@adoptium'', [(''17.0.1'', ''u1''), (''11.0.10'', ''u2''), (''11.0.9'', ''u3'')]),
          (''jdk@zulu'', [(''8.0.1'', ''u4'')])])])]
     \<lparr>conf_os = ''linux'', conf_arch = ''arm64'', conf_vendor = ''adoptium'', conf_version = ''11'',
       conf_index_url = ''https://example.org/index.json'',
       conf_allow_insecure_for_testing = False\<rparr> = []"
proof -
  let ?index = "[(''linux'', [(''amd64'',
         [(''jdk@adoptium'', [(''17.0.1'', ''u1''), (''11.0.10'', ''u2''), (''11.0.9'', ''u3'')]),
          (''jdk@zulu'', [(''8.0.1'', ''u4'')])])])]"
  let ?conf = "\<lparr>conf_os = ''linux'', conf_arch = ''amd64'', conf_vendor = ''adoptium'', conf_version = ''11'',
       conf_index_url = ''https://example.org/index.json'',
       conf_allow_insecure_for_testing = False\<rparr>"
  let ?jdks = "[(''jdk@adoptium'', [(''17.0.1'', ''u1''), (''11.0.10'', ''u2''), (''11.0.9'', ''u3'')]),
          (''jdk@zulu'', [(''8.0.1'', ''u4'')])]"
  have a: "map_of ?index (conf_os ?conf) = Some [(''amd64'', ?jdks)]"
    by simp
  have b: "map_of [(''amd64'', ?jdks)] (conf_arch ?conf) = Some ?jdks"
    by simp
  have "sorted (available_jdks ?index ?conf)"
    using available_jdks_sorted_pairs [of ?index ?conf] a b by blast
  moreover have "available_jdks ?index ?conf
     = [(''adoptium'', ''11.0.10''), (''adoptium'', ''11.0.9''), (''adoptium'', ''17.0.1''),
        (''zulu'', ''8.0.1'')]"
    by code_simp
  moreover have "available_jdks ?index
     \<lparr>conf_os = ''linux'', conf_arch = ''arm64'', conf_vendor = ''adoptium'', conf_version = ''11'',
       conf_index_url = ''https://example.org/index.json'',
       conf_allow_insecure_for_testing = False\<rparr> = []"
    by code_simp
  ultimately show ?thesis by (intro conjI)
qed

text \<open>
  Claim C4, amended. For a path that is a directory, \<open>find_home\<close> with any recursion
  depth returns exactly what the state machine determines: the path itself when its
  \<^verbatim>\<open>bin\<close> is a directory holding a regular file \<^verbatim>\<open>java\<close> or \<^verbatim>\<open>java.exe\<close> (executable
  or not); otherwise \<^verbatim>\<open>Contents/Home\<close> below it when that is such a directory; otherwise,
  when the depth is positive and the path has exactly one subdirectory, the result for
  that subdirectory with the depth less one; otherwise the \<^verbatim>\<open>RuntimeError\<close> naming the
  path at which the search stopped. With the initial depth 2, the home in
  \<^verbatim>\<open>root/only-child\<close> is found, the home in \<^verbatim>\<open>root/Contents/Home\<close> is found even with
  depth 0, and a home three single-child levels below the root is not found.
\<close>

theorem find_home_state_machine:
  assumes "is_dir fs p"
  shows "(find_home_spec fs p d r \<longleftrightarrow> find_home fs p d = r)
       \<and> find_home (Dir [(''only-child'', Dir [(''bin'', Dir [(''java'', File True)])])]) [] 2 = Inr [''only-child'']
       \<and> find_home (Dir [(''Contents'', Dir [(''Home'', Dir [(''bin'', Dir [(''java'', File True)])])])]) [] 0 = Inr [''Contents'', ''Home'']
       \<and> find_home (Dir [(''a'', Dir [(''b'', Dir [(''c'', Dir [(''bin'', Dir [(''java'', File True)])])])])]) [] 2 = Inl (RuntimeError [''a'', ''b''])"
proof -
  have "find_home_spec fs p d r \<longleftrightarrow> find_home fs p d = r"
    using assms by (rule find_home_refines)
  moreover have "find_home (Dir [(''only-child'', Dir [(''bin'', Dir [(''java'', File True)])])]) [] 2 = Inr [''only-child'']"
    by code_simp
  moreover have "find_home (Dir [(''Contents'', Dir [(''Home'', Dir [(''bin'', Dir [(''java'', File True)])])])]) [] 0 = Inr [''Contents'', ''Home'']"
    by code_simp
  moreover have "find_home (Dir [(''a'', Dir [(''b'', Dir [(''c'', Dir [(''bin'', Dir [(''java'', File True)])])])])]) [] 2 = Inl (RuntimeError [''a'', ''b''])"
    by code_simp
  ultimately show ?thesis by (intro conjI)
qed

theorem find_home_state_machine_witness:
  "is_dir (Dir [(''a'', Dir [(''b'', Dir [(''bin'', Dir [(''java.exe'', File False)])])])]) []
   \<and> find_home (Dir [(''a'', Dir [(''b'', Dir [(''bin'', Dir [(''java.exe'', File False)])])])]) [] 2
       = Inr [''a'', ''b'']
   \<and> find_home_spec (Dir [(''a'', Dir [(''b'', Dir [(''bin'', Dir [(''java.exe'', File False)])])])])
       [] 2 (Inr [''a'', ''b''])"
proof -
  let ?fs = "Dir [(''a'', Dir [(''b'', Dir [(''bin'', Dir [(''java.exe'', File False)])])])]"
  have d: "is_dir ?fs []"
    by code_simp
  have r: "find_home ?fs [] 2 = Inr [''a'', ''b'']"
    by code_simp
  have "find_home_spec ?fs [] 2 (Inr [''a'', ''b''])"
    by (rule find_home_state_machine [OF d, THEN conjunct1, THEN iffD2, OF r])
  with d r show ?thesis by (intro conjI)
qed

theorem find_home_not_executable_counterexample:
  "\<not> has_executable_java
       (Dir [(''bin'', Dir [(''java'', File False)]),
          (''Contents'', Dir [(''Home'', Dir [(''bin'', Dir [(''java'', File True)])])])]) []
   \<and> has_executable_java
       (Dir [(''bin'', Dir [(''java'', File False)]),
          (''Contents'', Dir [(''Home'', Dir [(''bin'', Dir [(''java'', File True)])])])]) macos_extra
   \<and> find_home
       (Dir [(''bin'', Dir [(''java'', File False)]),
          (''Contents'', Dir [(''Home'', Dir [(''bin'', Dir [(''java'', File True)])])])]) [] 2 = Inr []"
  by code_simp

end
